theory Spec2Isabelle
  imports Complex_Main "HOL-Library.Monad_Syntax"
begin

section \<open>Arithmetic on \<open>double\<close>\<close>

text \<open>
  A finite \<open>double\<close> is modelled by the real number it denotes. Every primitive operation
  of the source computes the exact real result and hands it to a rounding function, which
  returns the \<open>double\<close> that is stored, or \<open>None\<close> when the result is not a finite number
  (an infinity or a NaN). A computation is \<open>None\<close> as soon as one of its intermediate
  results is, so a result \<open>Some v\<close> says that every intermediate result was finite. The
  same embedding is read under two rounding functions: \<open>exact\<close>, which stores every real
  unchanged (the arithmetic of the published formulas), and \<open>binary64\<close>, IEEE 754 double
  precision with round-to-nearest, ties-to-even.
\<close>

type_synonym rounding = "real \<Rightarrow> real option"

definition exact :: rounding where
  "exact x = Some x"

text \<open>
  IEEE 754 binary64: 53 significant bits, exponents from \<open>-1022\<close> to \<open>1023\<close>, gradual
  underflow. \<open>expo64 x\<close> is the exponent of the binade of \<open>x\<close>, \<open>ulp64 x\<close> the spacing of
  the doubles there, \<open>ties_even\<close> rounds a real to the nearest integer, a tie to the even
  one. A result whose magnitude reaches \<open>threshold64\<close> overflows to an infinity.
\<close>

definition threshold64 :: real where
  "threshold64 = (2 - 1 / 2 ^ 53) * 2 ^ 1023"

definition expo64 :: "real \<Rightarrow> int" where
  "expo64 x = (if \<bar>x\<bar> < 2 powi (- 1022) then - 1022 else \<lfloor>log 2 \<bar>x\<bar>\<rfloor>)"

definition ulp64 :: "real \<Rightarrow> real" where
  "ulp64 x = 2 powi (expo64 x - 52)"

definition ties_even :: "real \<Rightarrow> int" where
  "ties_even r =
     (if r - of_int \<lfloor>r\<rfloor> < 1 / 2 then \<lfloor>r\<rfloor>
      else if 1 / 2 < r - of_int \<lfloor>r\<rfloor> then \<lfloor>r\<rfloor> + 1
      else if even \<lfloor>r\<rfloor> then \<lfloor>r\<rfloor> else \<lfloor>r\<rfloor> + 1)"

definition round64 :: "real \<Rightarrow> real" where
  "round64 x = of_int (ties_even (x / ulp64 x)) * ulp64 x"

definition binary64 :: rounding where
  "binary64 x = (if threshold64 \<le> \<bar>x\<bar> then None else Some (round64 x))"

text \<open>
  The operators \<open>+ - * /\<close> on doubles. A division by zero gives an infinity or a NaN.
\<close>

definition fadd :: "rounding \<Rightarrow> real \<Rightarrow> real \<Rightarrow> real option" where
  "fadd rnd x y = rnd (x + y)"

definition fsub :: "rounding \<Rightarrow> real \<Rightarrow> real \<Rightarrow> real option" where
  "fsub rnd x y = rnd (x - y)"

definition fmul :: "rounding \<Rightarrow> real \<Rightarrow> real \<Rightarrow> real option" where
  "fmul rnd x y = rnd (x * y)"

definition fdiv :: "rounding \<Rightarrow> real \<Rightarrow> real \<Rightarrow> real option" where
  "fdiv rnd x y = (if y = 0 then None else rnd (x / y))"

text \<open>
  The functions of \<open><cmath>\<close> the source calls, on finite arguments. \<open>pow\<close> has a pole at a
  zero base with a negative exponent and is undefined at a negative base with an exponent
  that is no integer; \<open>log\<close> is finite on positive arguments only, \<open>sqrt\<close> on non-negative
  ones. The library functions are taken as correctly rounded.
\<close>

definition pow_real :: "real \<Rightarrow> real \<Rightarrow> real option" where
  "pow_real x y =
     (if 0 < x then Some (x powr y)
      else if x = 0 then (if 0 < y then Some 0 else if y = 0 then Some 1 else None)
      else if y = of_int \<lfloor>y\<rfloor> then Some (x powi \<lfloor>y\<rfloor>) else None)"

definition fpow :: "rounding \<Rightarrow> real \<Rightarrow> real \<Rightarrow> real option" where
  "fpow rnd x y = Option.bind (pow_real x y) rnd"

definition fexp :: "rounding \<Rightarrow> real \<Rightarrow> real option" where
  "fexp rnd x = rnd (exp x)"

definition flog :: "rounding \<Rightarrow> real \<Rightarrow> real option" where
  "flog rnd x = (if 0 < x then rnd (ln x) else None)"

definition fsqrt :: "rounding \<Rightarrow> real \<Rightarrow> real option" where
  "fsqrt rnd x = (if 0 \<le> x then rnd (sqrt x) else None)"

text \<open>
  The error function, by its Maclaurin series
  \<open>erf x = 2 / sqrt pi * (\<Sum>n. (-1)^n * x^(2n+1) / (n! * (2n+1)))\<close>.
\<close>

definition erf_coeff :: "nat \<Rightarrow> real" where
  "erf_coeff n = (- 1) ^ n / (fact n * (2 * of_nat n + 1))"

definition erf_series :: "real \<Rightarrow> real" where
  "erf_series y = (\<Sum>n. erf_coeff n * y ^ n)"

definition erf :: "real \<Rightarrow> real" where
  "erf x = 2 / sqrt pi * (x * erf_series (x * x))"

definition ferf :: "rounding \<Rightarrow> real \<Rightarrow> real option" where
  "ferf rnd x = rnd (erf x)"

text \<open>
  Three auxiliary series, used only to bound the error function. \<open>wallis n\<close> is the
  product of \<open>2j / (2j + 1)\<close> for \<open>j = 1, \<dots>, n\<close>; \<open>kummer_series\<close> is the series
  of \<open>erf\<close> with positive terms, \<open>wallis_series\<close> the series of \<open>arctan\<close> found by Euler, and
  \<open>euler_tail n\<close> the tail of Euler's series for \<open>pi / 4\<close> from its \<open>n\<close>-th term.
\<close>

primrec wallis :: "nat \<Rightarrow> real" where
  "wallis 0 = 1"
| "wallis (Suc n) = wallis n * (2 * of_nat n + 2) / (2 * of_nat n + 3)"

definition euler_tail :: "nat \<Rightarrow> real" where
  "euler_tail n = (\<Sum>m. wallis (n + m) / 2 ^ (m + 1))"

definition kummer_series :: "real \<Rightarrow> real" where
  "kummer_series y = (\<Sum>n. wallis n / fact n * y ^ n)"

definition tail_series :: "real \<Rightarrow> real" where
  "tail_series y = (\<Sum>n. euler_tail n / fact n * y ^ n)"

definition wallis_series :: "real \<Rightarrow> real" where
  "wallis_series y = (\<Sum>n. wallis n * y ^ n)"

section \<open>The size distributions\<close>

text \<open>Grain size ranges for each of the dust composition types (in m).\<close>

definition amin_gra :: real where "amin_gra = 1 / 10 ^ 9"
definition amax_gra :: real where "amax_gra = 10 / 10 ^ 6"
definition amin_sil :: real where "amin_sil = 1 / 10 ^ 9"
definition amax_sil :: real where "amax_sil = 10 / 10 ^ 6"
definition amin_pah :: real where "amin_pah = 3548 / 10 ^ 13"
definition amax_pah :: real where "amax_pah = 1 / 10 ^ 8"

text \<open>
  \<open>dnda_grasil\<close>: the three factors are the local variables \<open>f0\<close>, \<open>f1\<close>, \<open>f2\<close> of the
  source, each operation in the order C++ evaluates it.
\<close>

definition grasil_f0 :: "rounding \<Rightarrow> real \<Rightarrow> real \<Rightarrow> real \<Rightarrow> real \<Rightarrow> real option" where
  "grasil_f0 rnd a C a_t alpha = do {
     q \<leftarrow> fdiv rnd C a;
     r \<leftarrow> fdiv rnd a a_t;
     p \<leftarrow> fpow rnd r alpha;
     fmul rnd q p
   }"

definition grasil_f1 :: "rounding \<Rightarrow> real \<Rightarrow> real \<Rightarrow> real \<Rightarrow> real option" where
  "grasil_f1 rnd a a_t beta =
     (if beta > 0 then do {
        m \<leftarrow> fmul rnd beta a;
        d \<leftarrow> fdiv rnd m a_t;
        fadd rnd 1 d
      } else do {
        m \<leftarrow> fmul rnd beta a;
        d \<leftarrow> fdiv rnd m a_t;
        s \<leftarrow> fsub rnd 1 d;
        fdiv rnd 1 s
      })"

definition grasil_f2 :: "rounding \<Rightarrow> real \<Rightarrow> real \<Rightarrow> real \<Rightarrow> real option" where
  "grasil_f2 rnd a a_t a_c =
     (if a < a_t then Some 1
      else do {
        s \<leftarrow> fsub rnd a a_t;
        t \<leftarrow> fdiv rnd s a_c;
        c \<leftarrow> fpow rnd t 3;
        fexp rnd (- c)
      })"

definition dnda_grasil ::
  "rounding \<Rightarrow> real \<Rightarrow> real \<Rightarrow> real \<Rightarrow> real \<Rightarrow> real \<Rightarrow> real \<Rightarrow> real option" where
  "dnda_grasil rnd a C a_t a_c alpha beta = do {
     f0 \<leftarrow> grasil_f0 rnd a C a_t alpha;
     f1 \<leftarrow> grasil_f1 rnd a a_t beta;
     f2 \<leftarrow> grasil_f2 rnd a a_t a_c;
     m \<leftarrow> fmul rnd f0 f1;
     fmul rnd m f2
   }"

text \<open>
  \<open>dnda_pah\<close>. \<open>pah_B\<close> is the body of the first loop (the normalisation \<open>B[i]\<close> of one
  mode, with its local variable \<open>erffac\<close> computed by \<open>pah_erffac\<close>), \<open>pah_term\<close> the body of
  the second (\<open>sum += B[i]/a*exp(-0.5*u*u)\<close>, the running sum being \<open>acc\<close>). The arrays
  \<open>a0\<close>, \<open>bc\<close> and \<open>B\<close> are lists, and both loops run over the indices \<open>0\<close> and \<open>1\<close>.
  \<open>M_PI\<close> is the double nearest to \<open>pi\<close>.
\<close>

definition pah_erffac :: "rounding \<Rightarrow> real \<Rightarrow> real \<Rightarrow> real option" where
  "pah_erffac rnd sigma a0i = do {
     amin \<leftarrow> rnd (35 / 10 ^ 11);
     m3 \<leftarrow> fmul rnd 3 sigma;
     s2 \<leftarrow> fsqrt rnd 2;
     x1 \<leftarrow> fdiv rnd m3 s2;
     q \<leftarrow> fdiv rnd a0i amin;
     l \<leftarrow> flog rnd q;
     s2' \<leftarrow> fsqrt rnd 2;
     x2 \<leftarrow> fdiv rnd l s2';
     x3 \<leftarrow> fdiv rnd x2 sigma;
     fadd rnd x1 x3
   }"

definition pah_B :: "rounding \<Rightarrow> real \<Rightarrow> real \<Rightarrow> real \<Rightarrow> real option" where
  "pah_B rnd sigma a0i bci = do {
     mC \<leftarrow> rnd (19944 / 10 ^ 30);
     rho \<leftarrow> rnd 2240;
     M_PI \<leftarrow> rnd pi;
     tp \<leftarrow> fmul rnd 2 M_PI;
     pw \<leftarrow> fpow rnd tp (3 / 2);
     t0 \<leftarrow> fdiv rnd 3 pw;
     e1 \<leftarrow> fmul rnd (- (9 / 2)) sigma;
     e2 \<leftarrow> fmul rnd e1 sigma;
     t1 \<leftarrow> fexp rnd e2;
     d1 \<leftarrow> fdiv rnd 1 rho;
     p3 \<leftarrow> fpow rnd a0i 3;
     d2 \<leftarrow> fdiv rnd d1 p3;
     t2 \<leftarrow> fdiv rnd d2 sigma;
     erffac \<leftarrow> pah_erffac rnd sigma a0i;
     n \<leftarrow> fmul rnd bci mC;
     er \<leftarrow> ferf rnd erffac;
     den \<leftarrow> fadd rnd 1 er;
     t3 \<leftarrow> fdiv rnd n den;
     t01 \<leftarrow> fmul rnd t0 t1;
     t012 \<leftarrow> fmul rnd t01 t2;
     fmul rnd t012 t3
   }"

definition pah_term :: "rounding \<Rightarrow> real \<Rightarrow> real \<Rightarrow> real \<Rightarrow> real \<Rightarrow> real \<Rightarrow> real option" where
  "pah_term rnd a sigma a0i Bi acc = do {
     q \<leftarrow> fdiv rnd a a0i;
     l \<leftarrow> flog rnd q;
     u \<leftarrow> fdiv rnd l sigma;
     h \<leftarrow> fmul rnd (- (1 / 2)) u;
     hu \<leftarrow> fmul rnd h u;
     e \<leftarrow> fexp rnd hu;
     ba \<leftarrow> fdiv rnd Bi a;
     t \<leftarrow> fmul rnd ba e;
     fadd rnd acc t
   }"

primrec pah_sum ::
  "rounding \<Rightarrow> real \<Rightarrow> real \<Rightarrow> real list \<Rightarrow> real list \<Rightarrow> nat list \<Rightarrow> real \<Rightarrow> real option" where
  "pah_sum rnd a sigma a0 B [] acc = Some acc"
| "pah_sum rnd a sigma a0 B (i # js) acc =
     Option.bind (pah_term rnd a sigma (a0 ! i) (B ! i) acc) (pah_sum rnd a sigma a0 B js)"

definition dnda_pah :: "rounding \<Rightarrow> real \<Rightarrow> real \<Rightarrow> real list \<Rightarrow> real list \<Rightarrow> real option" where
  "dnda_pah rnd a sigma a0 bc = do {
     B \<leftarrow> those (map (\<lambda>i. pah_B rnd sigma (a0 ! i) (bc ! i)) [0..<2]);
     pah_sum rnd a sigma a0 B [0..<2] 0
   }"

text \<open>
  Grain size distributions for the Milky Way environment with \<open>R_V = 3.1\<close>. A negative
  literal such as \<open>-1.54\<close> is the negation of the literal \<open>1.54\<close>.
\<close>

definition dnda_gra_mwy :: "rounding \<Rightarrow> real \<Rightarrow> real option" where
  "dnda_gra_mwy rnd a = do {
     C \<leftarrow> rnd (999 / 10 ^ 14);
     a_t \<leftarrow> rnd (107 / 10 ^ 10);
     a_c \<leftarrow> rnd (428 / 10 ^ 9);
     alpha \<leftarrow> rnd (154 / 100);
     beta \<leftarrow> rnd (165 / 1000);
     dnda_grasil rnd a C a_t a_c (- alpha) (- beta)
   }"

definition dnda_sil_mwy :: "rounding \<Rightarrow> real \<Rightarrow> real option" where
  "dnda_sil_mwy rnd a = do {
     C \<leftarrow> rnd (100 / 10 ^ 15);
     a_t \<leftarrow> rnd (164 / 10 ^ 9);
     a_c \<leftarrow> rnd (1 / 10 ^ 7);
     alpha \<leftarrow> rnd (221 / 100);
     beta \<leftarrow> rnd (300 / 1000);
     dnda_grasil rnd a C a_t a_c (- alpha) beta
   }"

definition dnda_pah_mwy :: "rounding \<Rightarrow> real \<Rightarrow> real option" where
  "dnda_pah_mwy rnd a = do {
     sigma \<leftarrow> rnd (4 / 10);
     a00 \<leftarrow> rnd (35 / 10 ^ 11);
     a01 \<leftarrow> rnd (30 / 10 ^ 10);
     bc0 \<leftarrow> rnd (45 / 10 ^ 6);
     bc1 \<leftarrow> rnd (15 / 10 ^ 6);
     p \<leftarrow> dnda_pah rnd a sigma [a00, a01] [bc0, bc1];
     fmul rnd (1 / 2) p
   }"

text \<open>
  Grain size distributions for the LMC environment; for PAHs the Milky Way values with
  1/6 of the total abundance.
\<close>

definition dnda_gra_lmc :: "rounding \<Rightarrow> real \<Rightarrow> real option" where
  "dnda_gra_lmc rnd a = do {
     C \<leftarrow> rnd (351 / 10 ^ 17);
     a_t \<leftarrow> rnd (980 / 10 ^ 10);
     a_c \<leftarrow> rnd (641 / 10 ^ 9);
     alpha \<leftarrow> rnd (299 / 100);
     beta \<leftarrow> rnd (246 / 100);
     dnda_grasil rnd a C a_t a_c (- alpha) beta
   }"

definition dnda_sil_lmc :: "rounding \<Rightarrow> real \<Rightarrow> real option" where
  "dnda_sil_lmc rnd a = do {
     C \<leftarrow> rnd (178 / 10 ^ 16);
     a_t \<leftarrow> rnd (184 / 10 ^ 9);
     a_c \<leftarrow> rnd (1 / 10 ^ 7);
     alpha \<leftarrow> rnd (249 / 100);
     beta \<leftarrow> rnd (345 / 1000);
     dnda_grasil rnd a C a_t a_c (- alpha) beta
   }"

definition dnda_pah_lmc :: "rounding \<Rightarrow> real \<Rightarrow> real option" where
  "dnda_pah_lmc rnd a = do {
     sigma \<leftarrow> rnd (4 / 10);
     a00 \<leftarrow> rnd (35 / 10 ^ 11);
     a01 \<leftarrow> rnd (30 / 10 ^ 10);
     bc0 \<leftarrow> rnd (75 / 10 ^ 7);
     bc1 \<leftarrow> rnd (25 / 10 ^ 7);
     p \<leftarrow> dnda_pah rnd a sigma [a00, a01] [bc0, bc1];
     fmul rnd (1 / 2) p
   }"

section \<open>Setting up the dust mix\<close>

text \<open>
  Modelled from the spec: the class is declared in a header that is not among the sources.
  The spec gives its environment attribute as an enumeration with the two values
  \<open>MilkyWay\<close> and \<open>LMC\<close>; the source compares it with \<open>Environment::MilkyWay\<close>. The three
  counts are the attributes \<open>_numGraphiteSizes\<close>, \<open>_numSilicateSizes\<close> and
  \<open>_numPAHSizes\<close> of the source.
\<close>

datatype Environment = MilkyWay | LMC

record WeingartnerDraineDustMix =
  environment :: Environment
  numGraphiteSizes :: int
  numSilicateSizes :: int
  numPAHSizes :: int

datatype GrainComposition =
  DraineGraphiteGrainComposition
  | DraineSilicateGrainComposition
  | DraineNeutralPAHGrainComposition
  | DraineIonizedPAHGrainComposition

text \<open>
  Modelled from the spec: \<open>addPopulations\<close> belongs to the base class \<open>MultiGrainDustMix\<close>,
  which is not among the sources. The spec gives its interface,
  \<open>addPopulations(composition, aMin, aMax, densityFn, count)\<close>; the model records each call,
  in the order the calls are made.
\<close>

record PopulationsCall =
  composition :: GrainComposition
  aMin :: real
  aMax :: real
  densityFn :: "real \<Rightarrow> real option"
  count :: int

definition addPopulations ::
  "GrainComposition \<Rightarrow> real \<Rightarrow> real \<Rightarrow> (real \<Rightarrow> real option) \<Rightarrow> int
     \<Rightarrow> PopulationsCall list \<Rightarrow> PopulationsCall list" where
  "addPopulations gc lo hi f n calls =
     calls @ [\<lparr>composition = gc, aMin = lo, aMax = hi, densityFn = f, count = n\<rparr>]"

text \<open>
  \<open>setupSelfBefore\<close>: \<open>calls\<close> is what the base class's own \<open>setupSelfBefore\<close> leaves behind;
  the four calls follow in the order of the source.
\<close>

definition setupSelfBefore ::
  "rounding \<Rightarrow> WeingartnerDraineDustMix \<Rightarrow> PopulationsCall list \<Rightarrow> PopulationsCall list" where
  "setupSelfBefore rnd mix calls =
     (let c1 = addPopulations DraineGraphiteGrainComposition amin_gra amax_gra
                 (if environment mix = MilkyWay then dnda_gra_mwy rnd else dnda_gra_lmc rnd)
                 (numGraphiteSizes mix) calls;
          c2 = addPopulations DraineSilicateGrainComposition amin_sil amax_sil
                 (if environment mix = MilkyWay then dnda_sil_mwy rnd else dnda_sil_lmc rnd)
                 (numSilicateSizes mix) c1;
          c3 = addPopulations DraineNeutralPAHGrainComposition amin_pah amax_pah
                 (if environment mix = MilkyWay then dnda_pah_mwy rnd else dnda_pah_lmc rnd)
                 (numPAHSizes mix) c2
      in addPopulations DraineIonizedPAHGrainComposition amin_pah amax_pah
           (if environment mix = MilkyWay then dnda_pah_mwy rnd else dnda_pah_lmc rnd)
           (numPAHSizes mix) c3)"

section \<open>The formulas of the specification\<close>

text \<open>
  The PAH form as the specification writes it, in real arithmetic: the normalisation
  \<open>B[i] = (3/(2 pi)^1.5) * exp(-4.5 sigma^2) * (1/(rho a0[i]^3 sigma))
     * (bc[i] m_C / (1 + erf(3 sigma/sqrt 2 + ln(a0[i]/a_min)/(sqrt 2 sigma))))\<close>
  and the density, the sum over both modes of
  \<open>(B[i]/a) * exp(-0.5 (ln(a/a0[i])/sigma)^2)\<close>, with \<open>m_C = 1.9944e-26\<close>, \<open>rho = 2.24e3\<close>
  and \<open>a_min = 3.5e-10\<close>.
\<close>

definition erffac_spec :: "real \<Rightarrow> real \<Rightarrow> real" where
  "erffac_spec sigma a0i = 3 * sigma / sqrt 2 + ln (a0i / (35 / 10 ^ 11)) / (sqrt 2 * sigma)"

definition B_spec :: "real \<Rightarrow> real \<Rightarrow> real \<Rightarrow> real" where
  "B_spec sigma a0i bci =
     3 / (2 * pi) powr (3 / 2) * exp (- (9 / 2) * sigma ^ 2) * (1 / (2240 * a0i ^ 3 * sigma))
       * (bci * (19944 / 10 ^ 30) / (1 + erf (erffac_spec sigma a0i)))"

definition dnda_pah_spec :: "real \<Rightarrow> real \<Rightarrow> real list \<Rightarrow> real list \<Rightarrow> real" where
  "dnda_pah_spec a sigma a0 bc =
     (\<Sum>i<2. B_spec sigma (a0 ! i) (bc ! i) / a * exp (- (1 / 2) * (ln (a / a0 ! i) / sigma) ^ 2))"

section \<open>Exact arithmetic\<close>

lemma exact_ops:
  "fadd exact x y = Some (x + y)"
  "fsub exact x y = Some (x - y)"
  "fmul exact x y = Some (x * y)"
  "y \<noteq> 0 \<Longrightarrow> fdiv exact x y = Some (x / y)"
  "fdiv exact x 0 = None"
  "fexp exact x = Some (exp x)"
  "0 < x \<Longrightarrow> flog exact x = Some (ln x)"
  "0 \<le> x \<Longrightarrow> fsqrt exact x = Some (sqrt x)"
  "ferf exact x = Some (erf x)"
  "0 < x \<Longrightarrow> fpow exact x y = Some (x powr y)"
  "fpow exact 0 3 = Some 0"
  by (simp_all add: fadd_def fsub_def fmul_def fdiv_def fexp_def flog_def fsqrt_def ferf_def
      fpow_def pow_real_def exact_def)

lemma grasil_f0_exact:
  "0 < a \<Longrightarrow> 0 < a_t \<Longrightarrow> grasil_f0 exact a C a_t alpha = Some (C / a * (a / a_t) powr alpha)"
  by (simp add: grasil_f0_def exact_ops)

lemma grasil_f1_exact_pos:
  "0 < beta \<Longrightarrow> 0 < a_t \<Longrightarrow> grasil_f1 exact a a_t beta = Some (1 + beta * a / a_t)"
  by (simp add: grasil_f1_def exact_ops)

lemma grasil_f1_denom:
  assumes "0 < (a::real)" "0 < a_t" "beta \<le> 0"
  shows "1 \<le> 1 - beta * a / a_t"
proof -
  have "beta * a \<le> 0" using assms by (simp add: mult_le_0_iff)
  then have "beta * a / a_t \<le> 0" using assms by (simp add: divide_le_0_iff)
  then show ?thesis by simp
qed

lemma grasil_f1_exact_nonpos:
  assumes "0 < a" "0 < a_t" "beta \<le> 0"
  shows "grasil_f1 exact a a_t beta = Some (1 / (1 - beta * a / a_t))"
proof -
  have "1 - beta * a / a_t \<noteq> 0" using grasil_f1_denom [OF assms] by linarith
  then have "fdiv exact 1 (1 - beta * a / a_t) = Some (1 / (1 - beta * a / a_t))"
    by (rule exact_ops)
  then show ?thesis using assms by (simp add: grasil_f1_def exact_ops)
qed

lemma grasil_f2_exact:
  assumes "0 < a_c"
  shows "grasil_f2 exact a a_t a_c = Some (if a < a_t then 1 else exp (- (((a - a_t) / a_c) ^ 3)))"
proof (cases "a < a_t")
  case True
  then show ?thesis by (simp add: grasil_f2_def)
next
  case False
  show ?thesis
  proof (cases "a = a_t")
    case True
    then show ?thesis using assms by (simp add: grasil_f2_def exact_ops)
  next
    case ne: False
    with False have "0 < (a - a_t) / a_c" using assms by simp
    then show ?thesis using False assms by (simp add: grasil_f2_def exact_ops)
  qed
qed


lemma dnda_grasil_exact:
  assumes "grasil_f0 exact a C a_t alpha = Some f0"
    and "grasil_f1 exact a a_t beta = Some f1"
    and "grasil_f2 exact a a_t a_c = Some f2"
  shows "dnda_grasil exact a C a_t a_c alpha beta = Some (f0 * f1 * f2)"
  using assms by (simp add: dnda_grasil_def exact_ops)

section \<open>The error function\<close>

lemma erf_coeff_abs: "\<bar>erf_coeff n\<bar> \<le> 1 / fact n"
proof -
  have "\<bar>erf_coeff n\<bar> = 1 / (fact n * (2 * of_nat n + 1))"
    by (simp add: erf_coeff_def abs_mult power_abs)
  also have "\<dots> \<le> 1 / (fact n * 1)"
    by (intro divide_left_mono mult_left_mono) simp_all
  finally show ?thesis by simp
qed

lemma erf_coeff_summable: "summable (\<lambda>n. erf_coeff n * y ^ n)"
proof (rule summable_comparison_test' [where N = 0])
  show "summable (\<lambda>n. norm (y ^ n /\<^sub>R fact n))"
    by (rule summable_norm_exp)
  fix n :: nat
  have "norm (erf_coeff n * y ^ n) = \<bar>erf_coeff n\<bar> * \<bar>y ^ n\<bar>"
    by (simp add: abs_mult)
  also have "\<dots> \<le> 1 / fact n * \<bar>y ^ n\<bar>"
    by (intro mult_right_mono erf_coeff_abs) simp
  also have "\<dots> = norm (y ^ n /\<^sub>R fact n)"
    by (simp add: divide_inverse abs_mult)
  finally show "norm (erf_coeff n * y ^ n) \<le> norm (y ^ n /\<^sub>R fact n)" .
qed

lemma erf_series_deriv:
  "(erf_series has_field_derivative (\<Sum>n. diffs erf_coeff n * y ^ n)) (at y)"
proof -
  have "erf_series = (\<lambda>x. \<Sum>n. erf_coeff n * x ^ n)"
    by (rule ext) (simp add: erf_series_def)
  then show ?thesis
    using termdiffs_strong_converges_everywhere [of erf_coeff y, OF erf_coeff_summable]
    by simp
qed

lemma erf_coeff_odd: "(2 * of_nat n + 1) * erf_coeff n = (- 1) ^ n / fact n"
proof -
  have "(2 * of_nat n + 1 :: real) \<noteq> 0"
    by (metis add_nonneg_pos less_numeral_extra(1) mult_nonneg_nonneg of_nat_0_le_iff
        order_less_irrefl zero_le_numeral)
  then show ?thesis by (simp add: erf_coeff_def)
qed

lemma erf_series_ode:
  "erf_series y + 2 * y * (\<Sum>n. diffs erf_coeff n * y ^ n) = exp (- y)"
proof -
  define f where "f = (\<lambda>n. erf_coeff n * y ^ n)"
  define h where "h = (\<lambda>n. 2 * of_nat n * erf_coeff n * y ^ n)"
  have sf: "summable f"
    unfolding f_def by (rule erf_coeff_summable)
  have sg: "summable (\<lambda>n. diffs erf_coeff n * y ^ n)"
    by (rule termdiff_converges_all) (rule erf_coeff_summable)
  have hS: "h (Suc n) = 2 * y * (diffs erf_coeff n * y ^ n)" for n
    by (simp add: h_def diffs_def algebra_simps)
  have shS: "summable (\<lambda>n. h (Suc n))"
    unfolding hS by (rule summable_mult) (rule sg)
  then have sh: "summable h"
    by (simp only: summable_Suc_iff)
  have "2 * y * (\<Sum>n. diffs erf_coeff n * y ^ n) = (\<Sum>n. h (Suc n))"
    unfolding hS by (rule suminf_mult [symmetric]) (rule sg)
  also have "\<dots> = suminf h - h 0"
    by (rule suminf_split_head) (rule sh)
  also have "\<dots> = suminf h"
    by (simp add: h_def)
  finally have "erf_series y + 2 * y * (\<Sum>n. diffs erf_coeff n * y ^ n) = suminf f + suminf h"
    by (simp add: erf_series_def f_def)
  also have "\<dots> = (\<Sum>n. f n + h n)"
    by (rule suminf_add) (rule sf, rule sh)
  also have "\<dots> = (\<Sum>n. (- y) ^ n /\<^sub>R fact n)"
  proof (rule suminf_cong)
    fix n
    have "f n + h n = ((2 * of_nat n + 1) * erf_coeff n) * y ^ n"
      by (simp add: f_def h_def algebra_simps)
    also have "\<dots> = (- 1) ^ n / fact n * y ^ n"
      by (simp only: erf_coeff_odd)
    also have "\<dots> = (- y) ^ n /\<^sub>R fact n"
      by (simp add: divide_inverse power_minus [of y])
    finally show "f n + h n = (- y) ^ n /\<^sub>R fact n" .
  qed
  also have "\<dots> = exp (- y)"
    by (simp add: exp_def)
  finally show ?thesis .
qed

lemma erf_deriv: "(erf has_field_derivative 2 / sqrt pi * exp (- (x * x))) (at x)"
proof -
  define d where "d = (\<Sum>n. diffs erf_coeff n * (x * x) ^ n)"
  have inner: "((\<lambda>x. erf_series (x * x)) has_field_derivative d * (x + x)) (at x)"
    unfolding d_def
    by (rule DERIV_chain' [where g = erf_series and f = "\<lambda>x. x * x"])
       (auto intro!: derivative_eq_intros erf_series_deriv)
  have "((\<lambda>x. x * erf_series (x * x)) has_field_derivative
          1 * erf_series (x * x) + d * (x + x) * x) (at x)"
    by (rule DERIV_mult [OF DERIV_ident inner])
  then have D: "((\<lambda>x. 2 / sqrt pi * (x * erf_series (x * x))) has_field_derivative
          2 / sqrt pi * (1 * erf_series (x * x) + d * (x + x) * x)) (at x)"
    by (rule DERIV_cmult)
  have e: "1 * erf_series (x * x) + d * (x + x) * x = exp (- (x * x))"
    using erf_series_ode [of "x * x"] by (simp add: d_def algebra_simps)
  have eq: "erf = (\<lambda>x. 2 / sqrt pi * (x * erf_series (x * x)))"
    by (rule ext) (simp add: erf_def)
  from D show ?thesis
    unfolding eq e .
qed

lemma erf_0: "erf 0 = 0"
  by (simp add: erf_def)

lemma erf_strict_mono:
  assumes "x < y"
  shows "erf x < erf y"
proof (rule DERIV_pos_imp_increasing [OF assms])
  fix z :: real
  have "0 < 2 / sqrt pi * exp (- (z * z))" by simp
  then show "\<exists>d. (erf has_real_derivative d) (at z) \<and> 0 < d"
    using erf_deriv [of z] by blast
qed

lemma erf_pos: "0 < x \<Longrightarrow> 0 < erf x"
  using erf_strict_mono [of 0 x] by (simp add: erf_0)

text \<open>
  The error function stays strictly between \<open>-1\<close> and \<open>1\<close>. With \<open>E x\<close> the integral of
  \<open>exp (- t\<^sup>2)\<close> from 0 to \<open>x\<close>, the function \<open>E\<^sup>2 + J\<close> is constant, where \<open>J\<close> is a
  positive function with \<open>J 0 = pi / 4\<close>; both are given by power series here.
\<close>

lemma wallis_pos: "0 < wallis n"
  by (induction n) (simp_all add: add_pos_nonneg)

lemma wallis_le_1: "wallis n \<le> 1"
proof (induction n)
  case 0
  show ?case by simp
next
  case (Suc n)
  have "wallis n * (2 * of_nat n + 2) \<le> 1 * (2 * of_nat n + 3)"
    using Suc wallis_pos [of n] by (intro mult_mono) simp_all
  then show ?case by (simp add: pos_divide_le_eq add_pos_nonneg)
qed

lemma wallis_Suc: "(2 * of_nat n + 3) * wallis (Suc n) = (2 * of_nat n + 2) * wallis n"
proof -
  have "(2 * of_nat n + 3 :: real) \<noteq> 0"
    using of_nat_0_le_iff [of n, where 'a = real] by linarith
  then show ?thesis by (simp add: field_simps)
qed

lemma summable_over_fact:
  fixes a :: "nat \<Rightarrow> real"
  assumes "\<And>n. \<bar>a n\<bar> \<le> 1"
  shows "summable (\<lambda>n. a n / fact n * y ^ n)"
proof (rule summable_comparison_test' [where N = 0])
  show "summable (\<lambda>n. norm (y ^ n /\<^sub>R fact n))"
    by (rule summable_norm_exp)
  fix n :: nat
  have "norm (a n / fact n * y ^ n) = \<bar>a n\<bar> * (\<bar>y ^ n\<bar> / fact n)"
    by (simp add: abs_mult)
  also have "\<dots> \<le> 1 * (\<bar>y ^ n\<bar> / fact n)"
    by (intro mult_right_mono assms) simp
  also have "\<dots> = norm (y ^ n /\<^sub>R fact n)"
    by (simp add: divide_inverse abs_mult mult.commute)
  finally show "norm (a n / fact n * y ^ n) \<le> norm (y ^ n /\<^sub>R fact n)" .
qed

lemma theta_sums:
  fixes a :: "nat \<Rightarrow> real"
  assumes "summable (\<lambda>n. diffs a n * y ^ n)"
  shows "(\<lambda>n. of_nat n * a n * y ^ n) sums (y * (\<Sum>n. diffs a n * y ^ n))"
proof -
  have "(\<lambda>n. y * (diffs a n * y ^ n)) sums (y * (\<Sum>n. diffs a n * y ^ n))"
    by (rule sums_mult) (rule summable_sums [OF assms])
  moreover have "y * (diffs a n * y ^ n) = of_nat (Suc n) * a (Suc n) * y ^ Suc n" for n
    by (simp add: diffs_def)
  ultimately have "(\<lambda>n. of_nat (Suc n) * a (Suc n) * y ^ Suc n)
      sums (y * (\<Sum>n. diffs a n * y ^ n))"
    by simp
  then show ?thesis
    by (simp only: sums_Suc_iff [where f = "\<lambda>n. of_nat n * a n * y ^ n"]) simp
qed

lemma wallis_abs: "\<bar>wallis n\<bar> \<le> 1"
  using wallis_pos [of n] wallis_le_1 [of n] by simp

lemma kummer_summable: "summable (\<lambda>n. wallis n / fact n * y ^ n)"
  by (rule summable_over_fact) (rule wallis_abs)

lemma kummer_deriv:
  "(kummer_series has_field_derivative (\<Sum>n. diffs (\<lambda>n. wallis n / fact n) n * y ^ n)) (at y)"
proof -
  have "kummer_series = (\<lambda>x. \<Sum>n. wallis n / fact n * x ^ n)"
    by (rule ext) (simp add: kummer_series_def)
  then show ?thesis
    using termdiffs_strong_converges_everywhere [of "\<lambda>n. wallis n / fact n" y, OF kummer_summable]
    by simp
qed

lemma kummer_ode:
  "kummer_series y + 2 * (y * (\<Sum>n. diffs (\<lambda>n. wallis n / fact n) n * y ^ n))
     = 1 + 2 * y * kummer_series y"
proof -
  define k where "k = (\<lambda>n. wallis n / fact n)"
  define f where "f = (\<lambda>n. (2 * of_nat n + 1) * k n * y ^ n)"
  have sk: "(\<lambda>n. k n * y ^ n) sums kummer_series y"
    unfolding k_def kummer_series_def by (rule summable_sums [OF kummer_summable])
  have sd: "summable (\<lambda>n. diffs k n * y ^ n)"
    unfolding k_def by (rule termdiff_converges_all) (rule kummer_summable)
  have "(\<lambda>n. k n * y ^ n + 2 * (of_nat n * k n * y ^ n))
      sums (kummer_series y + 2 * (y * (\<Sum>n. diffs k n * y ^ n)))"
    by (intro sums_add sums_mult sk theta_sums sd)
  moreover have "k n * y ^ n + 2 * (of_nat n * k n * y ^ n) = f n" for n
    by (simp add: f_def algebra_simps)
  ultimately have 1: "f sums (kummer_series y + 2 * (y * (\<Sum>n. diffs k n * y ^ n)))"
    by simp
  have kS: "(2 * of_nat n + 3) * k (Suc n) = 2 * k n" for n
  proof -
    have "(2 * of_nat n + 3) * k (Suc n) = (2 * of_nat n + 3) * wallis (Suc n) / fact (Suc n)"
      by (simp add: k_def)
    also have "\<dots> = (2 * of_nat n + 2) * wallis n / fact (Suc n)"
      by (simp only: wallis_Suc)
    also have "\<dots> = (2 * wallis n * (of_nat n + 1)) / (fact n * (of_nat n + 1))"
      by (simp add: algebra_simps)
    also have "\<dots> = 2 * wallis n / fact n"
    proof (rule mult_divide_mult_cancel_right)
      show "(of_nat n + 1 :: real) \<noteq> 0"
        using of_nat_0_le_iff [of n, where 'a = real] by linarith
    qed
    finally show ?thesis by (simp add: k_def)
  qed
  have "f (Suc n) = 2 * y * (k n * y ^ n)" for n
  proof -
    have "f (Suc n) = ((2 * of_nat n + 3) * k (Suc n)) * y ^ Suc n"
      by (simp add: f_def algebra_simps)
    then show ?thesis by (simp only: kS) simp
  qed
  moreover have "(\<lambda>n. 2 * y * (k n * y ^ n)) sums (2 * y * kummer_series y)"
    by (rule sums_mult) (rule sk)
  ultimately have "(\<lambda>n. f (Suc n)) sums (2 * y * kummer_series y)" by simp
  then have "f sums (2 * y * kummer_series y + f 0)"
    by (simp only: sums_Suc_iff)
  moreover have "2 * y * kummer_series y + f 0 = 1 + 2 * y * kummer_series y"
    by (simp add: f_def k_def)
  ultimately have 2: "f sums (1 + 2 * y * kummer_series y)"
    by (simp only:)
  from sums_unique2 [OF 1 2] show ?thesis by (simp add: k_def)
qed

lemma erf_integral_deriv:
  "((\<lambda>x. x * erf_series (x * x)) has_field_derivative exp (- (x * x))) (at x)"
proof -
  define d where "d = (\<Sum>n. diffs erf_coeff n * (x * x) ^ n)"
  have inner: "((\<lambda>x. erf_series (x * x)) has_field_derivative d * (x + x)) (at x)"
    unfolding d_def
    by (rule DERIV_chain' [where g = erf_series and f = "\<lambda>x. x * x"])
       (auto intro!: derivative_eq_intros erf_series_deriv)
  have D: "((\<lambda>x. x * erf_series (x * x)) has_field_derivative
          1 * erf_series (x * x) + d * (x + x) * x) (at x)"
    by (rule DERIV_mult [OF DERIV_ident inner])
  have e: "1 * erf_series (x * x) + d * (x + x) * x = exp (- (x * x))"
    using erf_series_ode [of "x * x"] by (simp add: d_def algebra_simps)
  from D show ?thesis unfolding e .
qed

lemma kummer_integral_deriv:
  "((\<lambda>x. exp (- (x * x)) * (x * kummer_series (x * x))) has_field_derivative exp (- (x * x)))
     (at x)"
proof -
  define d where "d = (\<Sum>n. diffs (\<lambda>n. wallis n / fact n) n * (x * x) ^ n)"
  define e where "e = exp (- (x * x))"
  define s where "s = kummer_series (x * x)"
  have inner: "((\<lambda>x. kummer_series (x * x)) has_field_derivative d * (x + x)) (at x)"
    unfolding d_def
    by (rule DERIV_chain' [where g = kummer_series and f = "\<lambda>x. x * x"])
       (auto intro!: derivative_eq_intros kummer_deriv)
  have D1: "((\<lambda>x. x * kummer_series (x * x)) has_field_derivative 1 * s + d * (x + x) * x) (at x)"
    unfolding s_def by (rule DERIV_mult [OF DERIV_ident inner])
  have D2: "((\<lambda>x. exp (- (x * x))) has_field_derivative e * (- (x + x))) (at x)"
    unfolding e_def by (auto intro!: derivative_eq_intros)
  have D: "((\<lambda>x. exp (- (x * x)) * (x * kummer_series (x * x))) has_field_derivative
      e * (- (x + x)) * (x * s) + (1 * s + d * (x + x) * x) * e) (at x)"
    unfolding s_def e_def
    by (rule DERIV_mult [OF D2 [unfolded e_def] D1 [unfolded s_def]])
  have ode: "s + 2 * (x * x * d) = 1 + 2 * (x * x) * s"
    using kummer_ode [of "x * x"] by (simp add: s_def d_def)
  have "e * (- (x + x)) * (x * s) + (1 * s + d * (x + x) * x) * e
      = e * ((s + 2 * (x * x * d)) - 2 * (x * x) * s)"
    by (simp add: algebra_simps)
  also have "\<dots> = e" by (simp only: ode) simp
  finally show ?thesis using D by (simp only: e_def)
qed

lemma kummer_eq: "x * erf_series (x * x) = exp (- (x * x)) * (x * kummer_series (x * x))"
proof -
  define D where "D = (\<lambda>x. x * erf_series (x * x) - exp (- (x * x)) * (x * kummer_series (x * x)))"
  have "\<forall>x. (D has_field_derivative 0) (at x)"
  proof
    fix x
    have "(D has_field_derivative exp (- (x * x)) - exp (- (x * x))) (at x)"
      unfolding D_def by (rule DERIV_diff [OF erf_integral_deriv kummer_integral_deriv])
    then show "(D has_field_derivative 0) (at x)" by simp
  qed
  then have "D x = D 0" by (rule DERIV_isconst_all)
  then show ?thesis by (simp add: D_def)
qed

lemma euler_tail_summable: "summable (\<lambda>m. wallis (n + m) / 2 ^ (m + 1))"
proof (rule summable_comparison_test' [where N = 0])
  show "summable (\<lambda>m. 1 / 2 * (1 / 2) ^ m :: real)"
    by (rule summable_mult) (rule summable_geometric, simp)
  fix m :: nat
  have "norm (wallis (n + m) / 2 ^ (m + 1)) = \<bar>wallis (n + m)\<bar> / 2 ^ (m + 1)"
    by simp
  also have "\<dots> \<le> 1 / 2 ^ (m + 1)"
    by (intro divide_right_mono wallis_abs) simp
  also have "\<dots> = 1 / 2 * (1 / 2) ^ m"
    by (simp add: power_divide)
  finally show "norm (wallis (n + m) / 2 ^ (m + 1)) \<le> 1 / 2 * (1 / 2) ^ m" .
qed

lemma euler_tail_pos: "0 < euler_tail n"
  unfolding euler_tail_def
  by (rule suminf_pos [OF euler_tail_summable]) (simp add: wallis_pos)

lemma euler_tail_le_1: "euler_tail n \<le> 1"
proof -
  have g: "summable (\<lambda>m. 1 / 2 * (1 / 2) ^ m :: real)"
    by (rule summable_mult) (rule summable_geometric, simp)
  have "euler_tail n \<le> (\<Sum>m. 1 / 2 * (1 / 2) ^ m)"
    unfolding euler_tail_def
  proof (rule suminf_le [OF _ euler_tail_summable g])
    fix m :: nat
    have "wallis (n + m) / 2 ^ (m + 1) \<le> 1 / 2 ^ (m + 1)"
      by (intro divide_right_mono wallis_le_1) simp
    then show "wallis (n + m) / 2 ^ (m + 1) \<le> 1 / 2 * (1 / 2) ^ m"
      by (simp add: power_divide)
  qed
  also have "\<dots> = 1 / 2 * (\<Sum>m. (1 / 2) ^ m :: real)"
    by (rule suminf_mult) (rule summable_geometric, simp)
  also have "\<dots> = 1"
    by (simp add: suminf_geometric)
  finally show ?thesis .
qed

lemma euler_tail_abs: "\<bar>euler_tail n\<bar> \<le> 1"
  using euler_tail_pos [of n] euler_tail_le_1 [of n] by simp

lemma euler_tail_Suc: "euler_tail (Suc n) = 2 * euler_tail n - wallis n"
proof -
  define g where "g = (\<lambda>m. wallis (n + m) / 2 ^ (m + 1))"
  have "g sums euler_tail n"
    unfolding g_def euler_tail_def by (rule summable_sums [OF euler_tail_summable])
  then have "(\<lambda>m. g (Suc m)) sums (euler_tail n - g 0)"
    by (simp add: sums_Suc_iff)
  moreover have "g (Suc m) = 1 / 2 * (wallis (Suc n + m) / 2 ^ (m + 1))" for m
    by (simp add: g_def)
  ultimately have 1: "(\<lambda>m. 1 / 2 * (wallis (Suc n + m) / 2 ^ (m + 1))) sums (euler_tail n - g 0)"
    by simp
  have 2: "(\<lambda>m. 1 / 2 * (wallis (Suc n + m) / 2 ^ (m + 1))) sums (1 / 2 * euler_tail (Suc n))"
    unfolding euler_tail_def by (rule sums_mult) (rule summable_sums [OF euler_tail_summable])
  have "euler_tail n - g 0 = 1 / 2 * euler_tail (Suc n)"
    by (rule sums_unique2 [OF 1 2])
  then show ?thesis by (simp add: g_def)
qed

lemma tail_summable: "summable (\<lambda>n. euler_tail n / fact n * y ^ n)"
  by (rule summable_over_fact) (rule euler_tail_abs)

lemma tail_deriv:
  "(tail_series has_field_derivative 2 * tail_series y - kummer_series y) (at y)"
proof -
  define s where "s = (\<lambda>n. euler_tail n / fact n)"
  have ds: "diffs s n = 2 * s n - wallis n / fact n" for n
  proof -
    have ne: "(of_nat n + 1 :: real) \<noteq> 0"
      using of_nat_0_le_iff [of n, where 'a = real] by linarith
    have "diffs s n = (euler_tail (Suc n) * (of_nat n + 1)) / (fact n * (of_nat n + 1))"
      by (simp add: diffs_def s_def algebra_simps)
    also have "\<dots> = euler_tail (Suc n) / fact n"
      by (rule mult_divide_mult_cancel_right [OF ne])
    finally show ?thesis by (simp add: euler_tail_Suc s_def diff_divide_distrib)
  qed
  have "(\<lambda>n. 2 * (s n * y ^ n) - wallis n / fact n * y ^ n)
      sums (2 * tail_series y - kummer_series y)"
    unfolding s_def tail_series_def kummer_series_def
    by (intro sums_diff sums_mult summable_sums tail_summable kummer_summable)
  moreover have "2 * (s n * y ^ n) - wallis n / fact n * y ^ n = diffs s n * y ^ n" for n
    by (simp add: ds algebra_simps)
  ultimately have "(\<lambda>n. diffs s n * y ^ n) sums (2 * tail_series y - kummer_series y)"
    by simp
  then have e: "(\<Sum>n. diffs s n * y ^ n) = 2 * tail_series y - kummer_series y"
    by (rule sums_unique [symmetric])
  have "tail_series = (\<lambda>x. \<Sum>n. s n * x ^ n)"
    by (rule ext) (simp add: tail_series_def s_def)
  then have "(tail_series has_field_derivative (\<Sum>n. diffs s n * y ^ n)) (at y)"
    using termdiffs_strong_converges_everywhere [of s y] tail_summable
    by (simp add: s_def)
  then show ?thesis by (simp only: e)
qed

lemma tail_series_pos: "0 < tail_series y" if "0 \<le> y"
  unfolding tail_series_def
proof (rule suminf_pos2 [OF tail_summable, where i = 0])
  show "0 \<le> euler_tail n / fact n * y ^ n" for n
    using that euler_tail_pos [of n] by (simp add: less_imp_le)
  show "0 < euler_tail 0 / fact 0 * y ^ 0"
    using euler_tail_pos [of 0] by simp
qed

lemma tail_series_0: "tail_series 0 = euler_tail 0"
  using powser_zero [of "\<lambda>n. euler_tail n / fact n"] by (simp add: tail_series_def)

lemma kummer_square:
  "(exp (- (x * x)) * (x * kummer_series (x * x))) ^ 2
     + exp (- 2 * (x * x)) * tail_series (x * x) = euler_tail 0"
proof -
  define K where "K = (\<lambda>x. exp (- (x * x)) * (x * kummer_series (x * x)))"
  define J where "J = (\<lambda>x. exp (- 2 * (x * x)) * tail_series (x * x))"
  define F where "F = (\<lambda>x. K x * K x + J x)"
  have "\<forall>x. (F has_field_derivative 0) (at x)"
  proof
    fix x :: real
    define e where "e = exp (- (x * x))"
    define s where "s = kummer_series (x * x)"
    define t where "t = tail_series (x * x)"
    have DK: "(K has_field_derivative e) (at x)"
      unfolding K_def e_def by (rule kummer_integral_deriv)
    have Dt: "((\<lambda>x. tail_series (x * x)) has_field_derivative (2 * t - s) * (x + x)) (at x)"
      unfolding t_def s_def
      by (rule DERIV_chain' [where g = tail_series and f = "\<lambda>x. x * x"])
         (auto intro!: derivative_eq_intros tail_deriv)
    have De: "((\<lambda>x. exp (- 2 * (x * x))) has_field_derivative
        exp (- 2 * (x * x)) * (- 2 * (x + x))) (at x)"
      by (auto intro!: derivative_eq_intros)
    have DJ: "(J has_field_derivative
        exp (- 2 * (x * x)) * (- 2 * (x + x)) * t + (2 * t - s) * (x + x) * exp (- 2 * (x * x)))
        (at x)"
      unfolding J_def t_def by (rule DERIV_mult [OF De Dt [unfolded t_def]])
    have DKK: "((\<lambda>x. K x * K x) has_field_derivative e * K x + e * K x) (at x)"
      by (rule DERIV_mult [OF DK DK])
    have DF: "(F has_field_derivative (e * K x + e * K x)
        + (exp (- 2 * (x * x)) * (- 2 * (x + x)) * t
           + (2 * t - s) * (x + x) * exp (- 2 * (x * x)))) (at x)"
      unfolding F_def by (rule DERIV_add [OF DKK DJ])
    have ee: "exp (- 2 * (x * x)) = e * e"
      by (simp add: e_def flip: exp_add)
    have "(e * K x + e * K x)
        + (exp (- 2 * (x * x)) * (- 2 * (x + x)) * t
           + (2 * t - s) * (x + x) * exp (- 2 * (x * x))) = 0"
      unfolding ee by (simp add: K_def algebra_simps flip: e_def s_def)
    with DF show "(F has_field_derivative 0) (at x)" by simp
  qed
  then have "F x = F 0" by (rule DERIV_isconst_all)
  then show ?thesis
    by (simp add: F_def K_def J_def tail_series_0 power2_eq_square)
qed

lemma kummer_bound: "(x * erf_series (x * x)) ^ 2 < euler_tail 0"
proof -
  have "0 < exp (- 2 * (x * x)) * tail_series (x * x)"
    by (intro mult_pos_pos tail_series_pos) simp_all
  moreover have "(x * erf_series (x * x)) ^ 2
      + exp (- 2 * (x * x)) * tail_series (x * x) = euler_tail 0"
    using kummer_square [of x] by (simp only: kummer_eq)
  ultimately show ?thesis by linarith
qed

lemma wallis_series_summable:
  assumes "norm y < 1"
  shows "summable (\<lambda>n. wallis n * y ^ n)"
proof (rule summable_comparison_test' [where N = 0])
  show "summable (\<lambda>n. norm y ^ n)"
    by (rule summable_geometric) (use assms in simp)
  fix n :: nat
  have "norm (wallis n * y ^ n) = \<bar>wallis n\<bar> * norm y ^ n"
    by (simp add: abs_mult power_abs)
  also have "\<dots> \<le> 1 * norm y ^ n"
    by (intro mult_right_mono wallis_abs) simp
  finally show "norm (wallis n * y ^ n) \<le> norm y ^ n" by simp
qed

lemma wallis_series_deriv:
  assumes "norm y < 1"
  shows "(wallis_series has_field_derivative (\<Sum>n. diffs wallis n * y ^ n)) (at y)"
proof -
  have "wallis_series = (\<lambda>x. \<Sum>n. wallis n * x ^ n)"
    by (rule ext) (simp add: wallis_series_def)
  then show ?thesis
    using termdiffs_strong' [of 1 wallis y] wallis_series_summable assms by simp
qed

lemma wallis_series_ode:
  assumes "norm y < 1"
  shows "wallis_series y + 2 * (y * (\<Sum>n. diffs wallis n * y ^ n))
     = 1 + y * (2 * (y * (\<Sum>n. diffs wallis n * y ^ n)) + 2 * wallis_series y)"
proof -
  define d where "d = (\<Sum>n. diffs wallis n * y ^ n)"
  define f where "f = (\<lambda>n. (2 * of_nat n + 1) * wallis n * y ^ n)"
  have sT: "(\<lambda>n. wallis n * y ^ n) sums wallis_series y"
    unfolding wallis_series_def by (rule summable_sums [OF wallis_series_summable [OF assms]])
  have sd: "summable (\<lambda>n. diffs wallis n * y ^ n)"
    by (rule termdiff_converges [OF assms]) (rule wallis_series_summable)
  have th: "(\<lambda>n. of_nat n * wallis n * y ^ n) sums (y * d)"
    unfolding d_def by (rule theta_sums [OF sd])
  have "(\<lambda>n. wallis n * y ^ n + 2 * (of_nat n * wallis n * y ^ n))
      sums (wallis_series y + 2 * (y * d))"
    by (intro sums_add sums_mult sT th)
  moreover have "wallis n * y ^ n + 2 * (of_nat n * wallis n * y ^ n) = f n" for n
    by (simp add: f_def algebra_simps)
  ultimately have 1: "f sums (wallis_series y + 2 * (y * d))"
    by simp
  have "f (Suc n) = y * (2 * (of_nat n * wallis n * y ^ n) + 2 * (wallis n * y ^ n))" for n
  proof -
    have "f (Suc n) = ((2 * of_nat n + 3) * wallis (Suc n)) * y ^ Suc n"
      by (simp add: f_def algebra_simps del: wallis.simps)
    also have "\<dots> = ((2 * of_nat n + 2) * wallis n) * y ^ Suc n"
      by (simp only: wallis_Suc)
    finally show ?thesis by (simp add: algebra_simps)
  qed
  moreover have "(\<lambda>n. y * (2 * (of_nat n * wallis n * y ^ n) + 2 * (wallis n * y ^ n)))
      sums (y * (2 * (y * d) + 2 * wallis_series y))"
    by (intro sums_add sums_mult sT th)
  ultimately have "(\<lambda>n. f (Suc n)) sums (y * (2 * (y * d) + 2 * wallis_series y))"
    by simp
  then have "f sums (y * (2 * (y * d) + 2 * wallis_series y) + f 0)"
    by (simp only: sums_Suc_iff)
  moreover have "y * (2 * (y * d) + 2 * wallis_series y) + f 0
      = 1 + y * (2 * (y * d) + 2 * wallis_series y)"
    by (simp add: f_def)
  ultimately have 2: "f sums (1 + y * (2 * (y * d) + 2 * wallis_series y))"
    by (simp only:)
  from sums_unique2 [OF 1 2] show ?thesis by (simp only: d_def)
qed

lemma euler_arctan_deriv:
  "((\<lambda>x. x / (1 + x * x) * wallis_series (x * x / (1 + x * x)))
      has_field_derivative 1 / (1 + x * x)) (at x)"
proof -
  define q where "q = 1 + x * x"
  define y where "y = x * x / q"
  define d where "d = (\<Sum>n. diffs wallis n * y ^ n)"
  define Tv where "Tv = wallis_series y"
  have q0: "0 < q" unfolding q_def by (simp add: add_pos_nonneg)
  have y01: "0 \<le> y" "y < 1" unfolding y_def using q0 by (simp_all add: q_def)
  then have ny: "norm y < 1" by simp
  have ode: "Tv + 2 * (y * d) = 1 + y * (2 * (y * d) + 2 * Tv)"
    unfolding Tv_def d_def by (rule wallis_series_ode [OF ny])
  have yq: "y * q = x * x" using q0 by (simp add: y_def)
  have "q * q * (Tv + 2 * (y * d)) = q * q * (1 + y * (2 * (y * d) + 2 * Tv))"
    by (simp only: ode)
  then have "q * q * Tv + 2 * q * (y * q) * d
      = q * q + (y * q) * (2 * (y * q) * d + 2 * q * Tv)"
    by (simp add: algebra_simps)
  then have "q * q * Tv + 2 * q * (x * x) * d
      = q * q + (x * x) * (2 * (x * x) * d + 2 * q * Tv)"
    by (simp only: yq)
  then have key: "q * (1 - x * x) * Tv + 2 * (x * x) * d = q * q"
    by (simp add: q_def algebra_simps)
  have Dy: "((\<lambda>x. x * x / (1 + x * x)) has_field_derivative (x + x) / (q * q)) (at x)"
    using q0 by (auto intro!: derivative_eq_intros simp: q_def field_simps)
  have Du: "((\<lambda>x. x / (1 + x * x)) has_field_derivative (1 - x * x) / (q * q)) (at x)"
    using q0 by (auto intro!: derivative_eq_intros simp: q_def field_simps)
  have DT: "((\<lambda>x. wallis_series (x * x / (1 + x * x))) has_field_derivative
      d * ((x + x) / (q * q))) (at x)"
    unfolding d_def y_def q_def
    by (rule DERIV_chain' [where g = wallis_series and f = "\<lambda>x. x * x / (1 + x * x)"])
       (use Dy wallis_series_deriv [OF ny] in \<open>simp_all add: q_def y_def\<close>)
  have DG: "((\<lambda>x. x / (1 + x * x) * wallis_series (x * x / (1 + x * x)))
      has_field_derivative
      (1 - x * x) / (q * q) * Tv + d * ((x + x) / (q * q)) * (x / q)) (at x)"
    unfolding Tv_def y_def q_def
    by (rule DERIV_mult [OF Du [unfolded q_def] DT [unfolded q_def]])
  have "(1 - x * x) / (q * q) * Tv + d * ((x + x) / (q * q)) * (x / q)
      = (q * (1 - x * x) * Tv + 2 * (x * x) * d) / (q * q * q)"
    using q0 by (simp add: field_simps)
  also have "\<dots> = 1 / q" using q0 by (simp only: key) simp
  finally show ?thesis using DG by (simp only: q_def)
qed

lemma euler_arctan: "x / (1 + x * x) * wallis_series (x * x / (1 + x * x)) = arctan x"
proof -
  define D where "D = (\<lambda>x. x / (1 + x * x) * wallis_series (x * x / (1 + x * x)) - arctan x)"
  have "\<forall>x. (D has_field_derivative 0) (at x)"
  proof
    fix x :: real
    have "(D has_field_derivative 1 / (1 + x * x) - inverse (1 + x\<^sup>2)) (at x)"
      unfolding D_def by (rule DERIV_diff [OF euler_arctan_deriv DERIV_arctan])
    then show "(D has_field_derivative 0) (at x)"
      by (simp add: power2_eq_square inverse_eq_divide)
  qed
  then have "D x = D 0" by (rule DERIV_isconst_all)
  then show ?thesis by (simp add: D_def)
qed

lemma euler_tail_0: "euler_tail 0 = pi / 4"
proof -
  have "(\<lambda>m. 1 / 2 * (wallis m * (1 / 2) ^ m)) sums (1 / 2 * wallis_series (1 / 2))"
    unfolding wallis_series_def
    by (intro sums_mult summable_sums wallis_series_summable) simp
  moreover have "(\<lambda>m. 1 / 2 * (wallis m * (1 / 2) ^ m)) = (\<lambda>m. wallis (0 + m) / 2 ^ (m + 1))"
    by (rule ext) (simp add: power_divide)
  ultimately have "(\<lambda>m. wallis (0 + m) / 2 ^ (m + 1)) sums (1 / 2 * wallis_series (1 / 2))"
    by (simp only:)
  then have "euler_tail 0 = 1 / 2 * wallis_series (1 / 2)"
    unfolding euler_tail_def by (rule sums_unique [symmetric])
  also have "\<dots> = arctan 1" using euler_arctan [of 1] by simp
  finally show ?thesis by (simp add: arctan_one)
qed

lemma erf_square_less_1: "(erf x) ^ 2 < 1"
proof -
  have "(erf x) ^ 2 = 4 / pi * (x * erf_series (x * x)) ^ 2"
    by (simp add: erf_def power_mult_distrib power_divide)
  also have "\<dots> < 4 / pi * euler_tail 0"
    by (intro mult_strict_left_mono kummer_bound) simp
  also have "\<dots> = 1" by (simp add: euler_tail_0)
  finally show ?thesis .
qed

lemma erf_bounds: "- 1 < erf x" "erf x < 1"
proof -
  have "\<bar>erf x\<bar> < 1"
    using erf_square_less_1 [of x] by (simp add: abs_square_less_1)
  then show "- 1 < erf x" "erf x < 1" by simp_all
qed

section \<open>The closed form of the graphite and silicate distribution\<close>

text \<open>
  Claim C1. In exact arithmetic, for every radius \<open>a > 0\<close> and parameters \<open>a_t > 0\<close>,
  \<open>a_c > 0\<close> (and any \<open>C\<close>, \<open>alpha\<close>, \<open>beta\<close>), \<open>dnda_grasil\<close> returns the product
  \<open>f0 * f1 * f2\<close> with \<open>f0 = (C/a) * (a/a_t)^alpha\<close>, \<open>f1 = 1 + beta*a/a_t\<close> when
  \<open>beta > 0\<close> and \<open>1/(1 - beta*a/a_t)\<close> otherwise, and \<open>f2 = 1\<close> when \<open>a < a_t\<close> and
  \<open>exp(-((a - a_t)/a_c)^3)\<close> when \<open>a \<ge> a_t\<close>.
\<close>

theorem dnda_grasil_formula:
  assumes "0 < a" "0 < a_t" "0 < a_c"
  shows "dnda_grasil exact a C a_t a_c alpha beta =
    Some ((C / a * (a / a_t) powr alpha)
          * (if 0 < beta then 1 + beta * a / a_t else 1 / (1 - beta * a / a_t))
          * (if a < a_t then 1 else exp (- (((a - a_t) / a_c) ^ 3))))"
proof (cases "0 < beta")
  case True
  then show ?thesis
    using assms dnda_grasil_exact [OF grasil_f0_exact grasil_f1_exact_pos grasil_f2_exact]
    by simp
next
  case False
  then have "beta \<le> 0" by simp
  then show ?thesis
    using assms False
      dnda_grasil_exact [OF grasil_f0_exact grasil_f1_exact_nonpos grasil_f2_exact]
    by simp
qed

text \<open>
  The theorem at the Milky Way graphite parameters and the radius \<open>0.01e-6\<close>.
\<close>

theorem dnda_grasil_formula_witness:
  "(0::real) < 1 / 10 ^ 8 \<and> (0::real) < 107 / 10 ^ 10 \<and> (0::real) < 428 / 10 ^ 9 \<and>
   dnda_grasil exact (1 / 10 ^ 8) (999 / 10 ^ 14) (107 / 10 ^ 10) (428 / 10 ^ 9)
       (- (154 / 100)) (- (165 / 1000)) =
     Some ((999 / 10 ^ 14 / (1 / 10 ^ 8) * ((1 / 10 ^ 8) / (107 / 10 ^ 10)) powr (- (154 / 100)))
           * (1 / (1 - (- (165 / 1000)) * (1 / 10 ^ 8) / (107 / 10 ^ 10))) * 1)"
proof -
  have h: "(0::real) < 1 / 10 ^ 8" "(0::real) < 107 / 10 ^ 10" "(0::real) < 428 / 10 ^ 9"
    by simp_all
  show ?thesis
    using h dnda_grasil_formula [OF h, of "999 / 10 ^ 14" "- (154 / 100)" "- (165 / 1000)"]
    by simp
qed

section \<open>The branch of \<open>f1\<close> for a non-positive \<open>beta\<close>\<close>

lemma grasil_f1_none_neg:
  assumes "0 < a_t" "beta \<le> 0" "grasil_f1 exact a a_t beta = None"
  shows "a < 0"
proof (rule ccontr)
  assume "\<not> a < 0"
  then have "0 \<le> a" by simp
  then have "beta * a \<le> 0" using assms(2) by (simp add: mult_le_0_iff)
  then have "beta * a / a_t \<le> 0" using assms(1) by (simp add: divide_le_0_iff)
  then have "1 - beta * a / a_t \<noteq> 0" by linarith
  then have "fdiv exact 1 (1 - beta * a / a_t) = Some (1 / (1 - beta * a / a_t))"
    by (rule exact_ops)
  then have "grasil_f1 exact a a_t beta \<noteq> None"
    using assms(1,2) by (simp add: grasil_f1_def exact_ops)
  then show False using assms(3) by simp
qed

section \<open>The PAH distribution in exact arithmetic\<close>

lemma pah_erffac_exact:
  assumes "0 < sigma" "0 < a0i"
  shows "pah_erffac exact sigma a0i = Some (erffac_spec sigma a0i)"
proof -
  have q: "0 < a0i / (35 / 10 ^ 11)" using assms by simp
  have "flog exact (a0i / (35 / 10 ^ 11)) = Some (ln (a0i / (35 / 10 ^ 11)))"
    by (rule exact_ops) (rule q)
  then show ?thesis
    using assms by (simp add: pah_erffac_def erffac_spec_def exact_ops exact_def)
qed

lemma erffac_spec_pos:
  assumes "0 < sigma" "35 / 10 ^ 11 \<le> a0i"
  shows "0 < erffac_spec sigma a0i"
proof -
  have "1 \<le> a0i / (35 / 10 ^ 11)" using assms by simp
  then have "0 \<le> ln (a0i / (35 / 10 ^ 11))" by simp
  then have "0 \<le> ln (a0i / (35 / 10 ^ 11)) / (sqrt 2 * sigma)"
    using assms by simp
  moreover have "0 < 3 * sigma / sqrt 2" using assms by simp
  ultimately show ?thesis unfolding erffac_spec_def by linarith
qed

lemma exact_bind: "Option.bind (exact x) f = f x"
  by (simp add: exact_def)

lemma pah_B_exact_raw:
  assumes "0 < sigma" "0 < a0i"
  shows "pah_B exact sigma a0i bci =
     Some (3 / (2 * pi) powr (3 / 2) * exp (- (9 / 2) * sigma * sigma)
        * (1 / 2240 / a0i powr 3 / sigma)
        * (bci * (19944 / 10 ^ 30) / (1 + erf (erffac_spec sigma a0i))))"
proof -
  have c: "0 < 2 * pi" "(2 * pi) powr (3 / 2) \<noteq> 0" "(2240::real) \<noteq> 0"
    "a0i powr 3 \<noteq> 0" "sigma \<noteq> 0"
    using assms by simp_all
  have d: "1 + erf (erffac_spec sigma a0i) \<noteq> 0"
    using erf_bounds(1) [of "erffac_spec sigma a0i"] by simp
  show ?thesis
    unfolding pah_B_def
    using assms c d
    by (simp only: exact_bind exact_ops pah_erffac_exact Option.bind.bind_lunit simp_thms)
qed

lemma pah_B_exact:
  assumes "0 < sigma" "0 < a0i"
  shows "pah_B exact sigma a0i bci = Some (B_spec sigma a0i bci)"
proof -
  have t1: "exp (- (9 / 2) * sigma * sigma) = exp (- (9 / 2) * sigma ^ 2)"
    by (simp add: power2_eq_square)
  have "a0i powr 3 = a0i ^ 3" using assms by simp
  then have t2: "1 / 2240 / a0i powr 3 / sigma = 1 / (2240 * a0i ^ 3 * sigma)"
    by simp
  show ?thesis
    unfolding B_spec_def pah_B_exact_raw [OF assms] t1 t2 ..
qed

lemma pah_term_exact:
  assumes "0 < a" "0 < sigma" "0 < a0i"
  shows "pah_term exact a sigma a0i Bi acc =
    Some (acc + Bi / a * exp (- (1 / 2) * (ln (a / a0i) / sigma) ^ 2))"
proof -
  have "flog exact (a / a0i) = Some (ln (a / a0i))"
    by (rule exact_ops) (use assms in simp)
  then show ?thesis
    using assms by (simp add: pah_term_def exact_ops power2_eq_square)
qed

lemma upt_0_2: "[0..<2] = [0, Suc 0]"
  by (simp add: upt_rec numeral_2_eq_2)

lemma lessThan_2: "{..<2::nat} = {0, Suc 0}"
  by auto

lemma dnda_pah_exact:
  assumes "0 < a" "0 < sigma" "0 < a00" "0 < a01"
  shows "dnda_pah exact a sigma [a00, a01] [b0, b1] =
    Some (dnda_pah_spec a sigma [a00, a01] [b0, b1])"
  using assms
  by (simp add: dnda_pah_def upt_0_2 pah_B_exact pah_term_exact dnda_pah_spec_def lessThan_2)

lemma pah_denominator:
  assumes "0 < sigma" "35 / 10 ^ 11 \<le> a0i"
  shows "1 < 1 + erf (erffac_spec sigma a0i)"
  using erf_pos [OF erffac_spec_pos [OF assms]] by simp

lemma B_spec_sign:
  assumes "0 < sigma" "35 / 10 ^ 11 \<le> a0i"
  shows "(0 < B_spec sigma a0i bci) = (0 < bci)"
proof -
  define K where "K = 3 / (2 * pi) powr (3 / 2) * exp (- (9 / 2) * sigma ^ 2)
    * (1 / (2240 * a0i ^ 3 * sigma)) * ((19944 / 10 ^ 30) / (1 + erf (erffac_spec sigma a0i)))"
  have a0: "0 < a0i" using assms(2) by (rule less_le_trans [rotated]) simp
  have den: "0 < 1 + erf (erffac_spec sigma a0i)"
    using pah_denominator [OF assms] by simp
  have "0 < 3 / (2 * pi) powr (3 / 2)" by simp
  moreover have "0 < exp (- (9 / 2) * sigma ^ 2)" by simp
  moreover have "0 < 1 / (2240 * a0i ^ 3 * sigma)" using assms(1) a0 by simp
  moreover have "0 < (19944 / 10 ^ 30) / (1 + erf (erffac_spec sigma a0i))"
    using den by simp
  ultimately have K: "0 < K" unfolding K_def by (intro mult_pos_pos)
  have "B_spec sigma a0i bci = K * bci" by (simp add: B_spec_def K_def)
  then show ?thesis using K by (simp add: zero_less_mult_iff)
qed

text \<open>
  Claim C2. In exact arithmetic, for every radius \<open>a > 0\<close>, \<open>sigma > 0\<close> and centres
  \<open>a0[0], a0[1] > 0\<close> (and any abundances), \<open>dnda_pah\<close> returns the sum over the two modes
  of \<open>(B[i]/a) * exp(-0.5*(ln(a/a0[i])/sigma)^2)\<close> with \<open>B[i]\<close> as the specification
  writes it.
\<close>

theorem dnda_pah_formula:
  assumes "0 < a" "0 < sigma" "0 < a00" "0 < a01"
  shows "dnda_pah exact a sigma [a00, a01] [b0, b1] =
     Some (B_spec sigma a00 b0 / a * exp (- (1 / 2) * (ln (a / a00) / sigma) ^ 2)
         + B_spec sigma a01 b1 / a * exp (- (1 / 2) * (ln (a / a01) / sigma) ^ 2))
   \<and> dnda_pah exact a sigma [a00, a01] [b0, b1] =
     Some (dnda_pah_spec a sigma [a00, a01] [b0, b1])"
proof -
  have "dnda_pah_spec a sigma [a00, a01] [b0, b1] =
     B_spec sigma a00 b0 / a * exp (- (1 / 2) * (ln (a / a00) / sigma) ^ 2)
         + B_spec sigma a01 b1 / a * exp (- (1 / 2) * (ln (a / a01) / sigma) ^ 2)"
    by (simp only: dnda_pah_spec_def lessThan_2 nth_Cons_0 nth_Cons_Suc)
       (simp del: power_divide)
  then show ?thesis using dnda_pah_exact [OF assms, of b0 b1] by simp
qed

text \<open>The theorem at the Milky Way PAH table and the radius \<open>1e-9\<close>.\<close>

theorem dnda_pah_formula_witness:
  "(0::real) < 1 / 10 ^ 9 \<and>
   dnda_pah exact (1 / 10 ^ 9) (4 / 10) [35 / 10 ^ 11, 30 / 10 ^ 10] [45 / 10 ^ 6, 15 / 10 ^ 6] =
     Some (dnda_pah_spec (1 / 10 ^ 9) (4 / 10) [35 / 10 ^ 11, 30 / 10 ^ 10]
             [45 / 10 ^ 6, 15 / 10 ^ 6])"
proof -
  have h: "(0::real) < 1 / 10 ^ 9" "(0::real) < 4 / 10" "(0::real) < 35 / 10 ^ 11"
    "(0::real) < 30 / 10 ^ 10"
    by simp_all
  show ?thesis
    using h(1) dnda_pah_formula [OF h, of "45 / 10 ^ 6" "15 / 10 ^ 6"] by blast
qed

section \<open>The calls of \<open>setupSelfBefore\<close>\<close>

lemma setupSelfBefore_calls:
  "setupSelfBefore rnd mix calls = calls @
     [\<lparr>composition = DraineGraphiteGrainComposition, aMin = amin_gra, aMax = amax_gra,
        densityFn = (if environment mix = MilkyWay then dnda_gra_mwy rnd else dnda_gra_lmc rnd),
        count = numGraphiteSizes mix\<rparr>,
      \<lparr>composition = DraineSilicateGrainComposition, aMin = amin_sil, aMax = amax_sil,
        densityFn = (if environment mix = MilkyWay then dnda_sil_mwy rnd else dnda_sil_lmc rnd),
        count = numSilicateSizes mix\<rparr>,
      \<lparr>composition = DraineNeutralPAHGrainComposition, aMin = amin_pah, aMax = amax_pah,
        densityFn = (if environment mix = MilkyWay then dnda_pah_mwy rnd else dnda_pah_lmc rnd),
        count = numPAHSizes mix\<rparr>,
      \<lparr>composition = DraineIonizedPAHGrainComposition, aMin = amin_pah, aMax = amax_pah,
        densityFn = (if environment mix = MilkyWay then dnda_pah_mwy rnd else dnda_pah_lmc rnd),
        count = numPAHSizes mix\<rparr>]"
  by (simp add: setupSelfBefore_def addPopulations_def Let_def)

text \<open>
  Claim C3. For the environments \<open>MilkyWay\<close> and \<open>LMC\<close> and any three counts,
  \<open>setupSelfBefore\<close> calls \<open>addPopulations\<close> exactly four times, in the order graphite,
  silicate, neutral PAH, ionized PAH, with the size range of the material (graphite and
  silicate \<open>0.001e-6\<close> to \<open>10e-6\<close>, both PAH kinds \<open>0.0003548e-6\<close> to \<open>0.01e-6\<close>), the
  density function of the environment and the material, and the count of the material
  family, the PAH count for both charge states.
\<close>

theorem setupSelfBefore_four_calls:
  "setupSelfBefore rnd
      \<lparr>environment = MilkyWay, numGraphiteSizes = ng, numSilicateSizes = ns, numPAHSizes = np\<rparr>
      calls = calls @
     [\<lparr>composition = DraineGraphiteGrainComposition, aMin = 1 / 10 ^ 9, aMax = 10 / 10 ^ 6,
        densityFn = dnda_gra_mwy rnd, count = ng\<rparr>,
      \<lparr>composition = DraineSilicateGrainComposition, aMin = 1 / 10 ^ 9, aMax = 10 / 10 ^ 6,
        densityFn = dnda_sil_mwy rnd, count = ns\<rparr>,
      \<lparr>composition = DraineNeutralPAHGrainComposition, aMin = 3548 / 10 ^ 13, aMax = 1 / 10 ^ 8,
        densityFn = dnda_pah_mwy rnd, count = np\<rparr>,
      \<lparr>composition = DraineIonizedPAHGrainComposition, aMin = 3548 / 10 ^ 13, aMax = 1 / 10 ^ 8,
        densityFn = dnda_pah_mwy rnd, count = np\<rparr>]
   \<and> setupSelfBefore rnd
      \<lparr>environment = LMC, numGraphiteSizes = ng, numSilicateSizes = ns, numPAHSizes = np\<rparr>
      calls = calls @
     [\<lparr>composition = DraineGraphiteGrainComposition, aMin = 1 / 10 ^ 9, aMax = 10 / 10 ^ 6,
        densityFn = dnda_gra_lmc rnd, count = ng\<rparr>,
      \<lparr>composition = DraineSilicateGrainComposition, aMin = 1 / 10 ^ 9, aMax = 10 / 10 ^ 6,
        densityFn = dnda_sil_lmc rnd, count = ns\<rparr>,
      \<lparr>composition = DraineNeutralPAHGrainComposition, aMin = 3548 / 10 ^ 13, aMax = 1 / 10 ^ 8,
        densityFn = dnda_pah_lmc rnd, count = np\<rparr>,
      \<lparr>composition = DraineIonizedPAHGrainComposition, aMin = 3548 / 10 ^ 13, aMax = 1 / 10 ^ 8,
        densityFn = dnda_pah_lmc rnd, count = np\<rparr>]"
  unfolding setupSelfBefore_calls
  by (simp add: amin_gra_def amax_gra_def amin_sil_def amax_sil_def amin_pah_def amax_pah_def)

section \<open>The tables in exact arithmetic\<close>

lemma tables_exact:
  "dnda_gra_mwy exact a =
     dnda_grasil exact a (999 / 10 ^ 14) (107 / 10 ^ 10) (428 / 10 ^ 9) (- (154 / 100))
       (- (165 / 1000))"
  "dnda_sil_mwy exact a =
     dnda_grasil exact a (100 / 10 ^ 15) (164 / 10 ^ 9) (1 / 10 ^ 7) (- (221 / 100)) (300 / 1000)"
  "dnda_gra_lmc exact a =
     dnda_grasil exact a (351 / 10 ^ 17) (980 / 10 ^ 10) (641 / 10 ^ 9) (- (299 / 100)) (246 / 100)"
  "dnda_sil_lmc exact a =
     dnda_grasil exact a (178 / 10 ^ 16) (184 / 10 ^ 9) (1 / 10 ^ 7) (- (249 / 100)) (345 / 1000)"
  by (simp_all only: dnda_gra_mwy_def dnda_sil_mwy_def dnda_gra_lmc_def dnda_sil_lmc_def
      exact_bind)

lemma pah_tables_exact:
  "dnda_pah_mwy exact a =
     Option.bind (dnda_pah exact a (4 / 10) [35 / 10 ^ 11, 30 / 10 ^ 10] [45 / 10 ^ 6, 15 / 10 ^ 6])
       (fmul exact (1 / 2))"
  "dnda_pah_lmc exact a =
     Option.bind (dnda_pah exact a (4 / 10) [35 / 10 ^ 11, 30 / 10 ^ 10] [75 / 10 ^ 7, 25 / 10 ^ 7])
       (fmul exact (1 / 2))"
  by (simp_all only: dnda_pah_mwy_def dnda_pah_lmc_def exact_bind)

lemma dnda_pah_tables:
  assumes "0 < a"
  shows "dnda_pah exact a (4 / 10) [35 / 10 ^ 11, 30 / 10 ^ 10] [b0, b1] =
    Some (dnda_pah_spec a (4 / 10) [35 / 10 ^ 11, 30 / 10 ^ 10] [b0, b1])"
  by (rule dnda_pah_exact [OF assms]) simp_all

lemma dnda_pah_mwy_exact:
  assumes "0 < a"
  shows "dnda_pah_mwy exact a =
    Some (1 / 2 * dnda_pah_spec a (4 / 10) [35 / 10 ^ 11, 30 / 10 ^ 10] [45 / 10 ^ 6, 15 / 10 ^ 6])"
  by (simp only: pah_tables_exact dnda_pah_tables [OF assms] Option.bind.bind_lunit exact_ops)

lemma dnda_pah_lmc_exact:
  assumes "0 < a"
  shows "dnda_pah_lmc exact a =
    Some (1 / 2 * dnda_pah_spec a (4 / 10) [35 / 10 ^ 11, 30 / 10 ^ 10] [75 / 10 ^ 7, 25 / 10 ^ 7])"
  by (simp only: pah_tables_exact dnda_pah_tables [OF assms] Option.bind.bind_lunit exact_ops)

text \<open>
  Claim C4. For the environments \<open>MilkyWay\<close> and \<open>LMC\<close>, the density function passed for
  the neutral PAH and the one passed for the ionized PAH are the same function (under
  every rounding), and in exact arithmetic each returns, at every radius \<open>a > 0\<close>, exactly
  0.5 times \<open>dnda_pah\<close> at the one PAH table of the environment.
\<close>

theorem pah_charge_states_share_density:
  assumes "environment mix = MilkyWay \<or> environment mix = LMC" and "0 < a"
  shows "(\<exists>c1 c2 n i. setupSelfBefore rnd mix calls = calls @ [c1, c2, n, i]
        \<and> composition n = DraineNeutralPAHGrainComposition
        \<and> composition i = DraineIonizedPAHGrainComposition
        \<and> densityFn n = densityFn i)
    \<and> (\<exists>c1 c2 n i p. setupSelfBefore exact mix calls = calls @ [c1, c2, n, i]
        \<and> dnda_pah exact a (4 / 10) [35 / 10 ^ 11, 30 / 10 ^ 10]
             (if environment mix = MilkyWay then [45 / 10 ^ 6, 15 / 10 ^ 6]
              else [75 / 10 ^ 7, 25 / 10 ^ 7]) = Some p
        \<and> densityFn n a = Some (1 / 2 * p)
        \<and> densityFn i a = Some (1 / 2 * p))"
proof
  show "\<exists>c1 c2 n i. setupSelfBefore rnd mix calls = calls @ [c1, c2, n, i]
        \<and> composition n = DraineNeutralPAHGrainComposition
        \<and> composition i = DraineIonizedPAHGrainComposition
        \<and> densityFn n = densityFn i"
    unfolding setupSelfBefore_calls by simp
next
  show "\<exists>c1 c2 n i p. setupSelfBefore exact mix calls = calls @ [c1, c2, n, i]
        \<and> dnda_pah exact a (4 / 10) [35 / 10 ^ 11, 30 / 10 ^ 10]
             (if environment mix = MilkyWay then [45 / 10 ^ 6, 15 / 10 ^ 6]
              else [75 / 10 ^ 7, 25 / 10 ^ 7]) = Some p
        \<and> densityFn n a = Some (1 / 2 * p)
        \<and> densityFn i a = Some (1 / 2 * p)"
    unfolding setupSelfBefore_calls
    using dnda_pah_tables [OF assms(2)] dnda_pah_mwy_exact [OF assms(2)]
      dnda_pah_lmc_exact [OF assms(2)]
    by (cases "environment mix = MilkyWay") simp_all
qed

text \<open>The theorem at the LMC environment and the radius \<open>1e-9\<close>.\<close>

theorem pah_charge_states_share_density_witness:
  "\<exists>c1 c2 n i p.
     setupSelfBefore exact
       \<lparr>environment = LMC, numGraphiteSizes = 5, numSilicateSizes = 6, numPAHSizes = 7\<rparr> []
       = [c1, c2, n, i]
     \<and> dnda_pah exact (1 / 10 ^ 9) (4 / 10) [35 / 10 ^ 11, 30 / 10 ^ 10] [75 / 10 ^ 7, 25 / 10 ^ 7]
         = Some p
     \<and> densityFn n (1 / 10 ^ 9) = Some (1 / 2 * p)
     \<and> densityFn i (1 / 10 ^ 9) = Some (1 / 2 * p)"
proof -
  have h: "environment \<lparr>environment = LMC, numGraphiteSizes = 5, numSilicateSizes = 6,
      numPAHSizes = 7\<rparr> = MilkyWay
    \<or> environment \<lparr>environment = LMC, numGraphiteSizes = 5, numSilicateSizes = 6,
      numPAHSizes = 7\<rparr> = LMC"
    "(0::real) < 1 / 10 ^ 9"
    by simp_all
  show ?thesis
    using pah_charge_states_share_density [OF h, of exact "[]"] by simp
qed

section \<open>Positive densities in exact arithmetic\<close>




section \<open>Rounding to binary64\<close>

lemma ties_even_ge_floor: "\<lfloor>r\<rfloor> \<le> ties_even r"
  by (simp add: ties_even_def)

lemma ties_even_le_ceiling: "ties_even r \<le> \<lceil>r\<rceil>"
proof (cases "r = of_int \<lfloor>r\<rfloor>")
  case True
  then have "r - of_int \<lfloor>r\<rfloor> < 1 / 2" by simp
  then show ?thesis by (simp add: ties_even_def)
next
  case False
  then have "\<lceil>r\<rceil> = \<lfloor>r\<rfloor> + 1" by (simp add: ceiling_altdef)
  then show ?thesis by (simp add: ties_even_def)
qed

lemma expo64_normal:
  assumes "- 1022 \<le> k" "2 powi k \<le> x"
  shows "2 powi (expo64 x) \<le> x" "x < 2 powi (expo64 x + 1)" "k \<le> expo64 x"
proof -
  have x: "0 < x" using assms(2) by (rule less_le_trans [rotated]) simp
  have "(2::real) powi (- 1022) \<le> 2 powi k"
    by (rule power_int_increasing [OF assms(1)]) simp
  then have "\<not> \<bar>x\<bar> < 2 powi (- 1022)" using assms(2) x by simp
  then have e: "expo64 x = \<lfloor>log 2 x\<rfloor>" using x by (simp add: expo64_def)
  have "2 powr real_of_int (expo64 x) \<le> x \<and> x < 2 powr real_of_int (expo64 x + 1)"
    using floor_log_eq_powr_iff [of x 2 "expo64 x"] x e by simp
  then show b: "2 powi (expo64 x) \<le> x" "x < 2 powi (expo64 x + 1)"
    by (simp_all only: powr_real_of_int' [of 2, simplified])
  show "k \<le> expo64 x"
  proof (rule ccontr)
    assume "\<not> k \<le> expo64 x"
    then have "expo64 x + 1 \<le> k" by simp
    then have "(2::real) powi (expo64 x + 1) \<le> 2 powi k"
      by (rule power_int_increasing) simp
    then show False using b(2) assms(2) by simp
  qed
qed

lemma round64_bounds:
  assumes "- 1022 \<le> k" "2 powi k \<le> x" "x \<le> 2 powi m"
  shows "2 powi k \<le> round64 x" "round64 x \<le> 2 powi m"
proof -
  define e where "e = expo64 x"
  define u :: real where "u = 2 powi (e - 52)"
  define r where "r = x / u"
  have u: "0 < u" by (simp add: u_def)
  have n: "2 powi e \<le> x" "x < 2 powi (e + 1)" "k \<le> e"
    unfolding e_def by (rule expo64_normal [OF assms(1,2)])+
  have rd: "round64 x = of_int (ties_even r) * u"
    by (simp add: round64_def ulp64_def r_def u_def e_def)
  have eu: "(2::real) powi e = 2 ^ 52 * u"
    using power_int_add [of "2::real" 52 "e - 52"] by (simp add: u_def)
  have "2 ^ 52 * u \<le> x" using n(1) eu by simp
  then have "2 ^ 52 \<le> r" using u by (simp add: r_def pos_le_divide_eq)
  then have "of_int (2 ^ 52) \<le> r" by simp
  then have "2 ^ 52 \<le> \<lfloor>r\<rfloor>" by (simp only: le_floor_iff)
  then have "2 ^ 52 \<le> ties_even r" using ties_even_ge_floor [of r] by linarith
  then have "(2::real) ^ 52 \<le> of_int (ties_even r)"
    by (metis of_int_le_iff of_int_numeral of_int_power)
  then have "2 ^ 52 * u \<le> of_int (ties_even r) * u"
    using u by (intro mult_right_mono) simp_all
  then have "2 powi e \<le> round64 x" by (simp only: rd eu)
  moreover have "(2::real) powi k \<le> 2 powi e"
    by (rule power_int_increasing [OF n(3)]) simp
  ultimately show "2 powi k \<le> round64 x" by linarith
  have em: "e \<le> m"
  proof (rule ccontr)
    assume "\<not> e \<le> m"
    then have "m < e" by simp
    then have "(2::real) powi m < 2 powi e" by (rule power_int_strict_increasing) simp
    then show False using n(1) assms(3) by simp
  qed
  define j where "j = nat (m - e + 52)"
  have "(2::real) powi (m - e + 52) = 2 ^ j"
    unfolding j_def using em by (intro power_int_nonneg_exp) simp
  then have mu: "(2::real) powi m = 2 ^ j * u"
    using power_int_add [of "2::real" "m - e + 52" "e - 52"] by (simp add: u_def)
  have "x \<le> 2 ^ j * u" using assms(3) mu by simp
  then have "r \<le> 2 ^ j" using u by (simp add: r_def pos_divide_le_eq)
  then have "r \<le> of_int (2 ^ j)" by simp
  then have "\<lceil>r\<rceil> \<le> 2 ^ j" by (simp only: ceiling_le_iff)
  then have "ties_even r \<le> 2 ^ j" using ties_even_le_ceiling [of r] by linarith
  then have "of_int (ties_even r) \<le> (2::real) ^ j"
    by (metis of_int_le_iff of_int_numeral of_int_power)
  then have "of_int (ties_even r) * u \<le> 2 ^ j * u"
    using u by (intro mult_right_mono) simp_all
  then show "round64 x \<le> 2 powi m" by (simp only: rd mu)
qed

lemma below_threshold64:
  assumes "m \<le> 1023" "\<bar>x\<bar> \<le> 2 powi m"
  shows "\<not> threshold64 \<le> \<bar>x\<bar>"
proof -
  have "(2::real) powi m \<le> 2 powi 1023"
    by (rule power_int_increasing [OF assms(1)]) simp
  also have "\<dots> = 1 * 2 ^ 1023" by simp
  also have "\<dots> < (2 - 1 / 2 ^ 53) * 2 ^ 1023"
    by (rule mult_strict_right_mono) simp_all
  also have "\<dots> = threshold64" by (simp only: threshold64_def)
  finally show ?thesis using assms(2) by linarith
qed

lemma binary64_bounds:
  assumes "- 1022 \<le> k" "m \<le> 1023" "2 powi k \<le> x" "x \<le> 2 powi m"
  shows "\<exists>v. binary64 x = Some v \<and> 2 powi k \<le> v \<and> v \<le> 2 powi m"
proof -
  have "0 < x" using assms(3) by (rule less_le_trans [rotated]) simp
  then have "\<bar>x\<bar> \<le> 2 powi m" using assms(4) by simp
  then have "binary64 x = Some (round64 x)"
    using below_threshold64 [OF assms(2)] by (simp add: binary64_def)
  then show ?thesis
    using round64_bounds [OF assms(1,3,4)] by simp
qed

lemma binary64_underflow:
  assumes "0 \<le> x" "x < 2 powi (- 1075)"
  shows "binary64 x = Some 0"
proof -
  have lt: "(2::real) powi (- 1075) < 2 powi (- 1022)"
    by (rule power_int_strict_increasing) simp_all
  then have e: "expo64 x = - 1022" using assms by (simp add: expo64_def)
  have "\<bar>x\<bar> \<le> 2 powi (- 1022)" using assms lt by simp
  then have b: "binary64 x = Some (round64 x)"
    using below_threshold64 [of "- 1022" x] by (simp add: binary64_def)
  define r where "r = x / 2 powi (- 1074)"
  have u: "(0::real) < 2 powi (- 1074)" by simp
  have "(2::real) powi (- 1075) = 2 powi (- 1074) * (1 / 2)"
    using power_int_add [of "2::real" "- 1074" "- 1"] by simp
  then have "x < (1 / 2) * 2 powi (- 1074)" using assms(2) by simp
  then have half: "r < 1 / 2" unfolding r_def by (simp only: pos_divide_less_eq [OF u])
  have r0: "0 \<le> r" using assms(1) by (simp add: r_def)
  have f: "\<lfloor>r\<rfloor> = 0" using half r0 by (simp add: floor_eq_iff)
  have "r - of_int \<lfloor>r\<rfloor> < 1 / 2" using half by (simp add: f)
  then have "ties_even r = 0" using f by (simp add: ties_even_def)
  then have "round64 x = 0" by (simp add: round64_def ulp64_def e r_def)
  with b show ?thesis by simp
qed

lemma b64_mul:
  assumes "2 powi k1 \<le> x" "x \<le> 2 powi m1" "2 powi k2 \<le> y" "y \<le> 2 powi m2"
    and "- 1022 \<le> k1 + k2" "m1 + m2 \<le> 1023"
  shows "\<exists>v. fmul binary64 x y = Some v \<and> 2 powi (k1 + k2) \<le> v \<and> v \<le> 2 powi (m1 + m2)"
proof -
  have x: "0 < x" using assms(1) by (rule less_le_trans [rotated]) simp
  have y: "0 < y" using assms(3) by (rule less_le_trans [rotated]) simp
  have "2 powi k1 * 2 powi k2 \<le> x * y"
    using assms(1,3) x y by (intro mult_mono) simp_all
  then have lo: "2 powi (k1 + k2) \<le> x * y" by (simp add: power_int_add)
  have "x * y \<le> 2 powi m1 * 2 powi m2"
    using assms(2,4) x y by (intro mult_mono) simp_all
  then have hi: "x * y \<le> 2 powi (m1 + m2)" by (simp add: power_int_add)
  show ?thesis
    unfolding fmul_def by (rule binary64_bounds [OF assms(5,6) lo hi])
qed

lemma b64_div:
  assumes "2 powi k1 \<le> x" "x \<le> 2 powi m1" "2 powi k2 \<le> y" "y \<le> 2 powi m2"
    and "- 1022 \<le> k1 - m2" "m1 - k2 \<le> 1023"
  shows "\<exists>v. fdiv binary64 x y = Some v \<and> 2 powi (k1 - m2) \<le> v \<and> v \<le> 2 powi (m1 - k2)"
proof -
  have x: "0 < x" using assms(1) by (rule less_le_trans [rotated]) simp
  have y: "0 < y" using assms(3) by (rule less_le_trans [rotated]) simp
  have "2 powi k1 / 2 powi m2 \<le> x / y"
    using assms(1,4) x y by (intro frac_le) simp_all
  then have lo: "2 powi (k1 - m2) \<le> x / y" by (simp add: power_int_diff)
  have "x / y \<le> 2 powi m1 / 2 powi k2"
    using assms(2,3) x y by (intro frac_le) simp_all
  then have hi: "x / y \<le> 2 powi (m1 - k2)" by (simp add: power_int_diff)
  have "y \<noteq> 0" using y by simp
  then show ?thesis
    unfolding fdiv_def using binary64_bounds [OF assms(5,6) lo hi] by simp
qed


lemma ties_even_neg: "ties_even (- r) = - ties_even r"
proof (cases "r = of_int \<lfloor>r\<rfloor>")
  case True
  then have "\<lfloor>- r\<rfloor> = - \<lfloor>r\<rfloor>"
    by (metis floor_of_int of_int_minus)
  with True show ?thesis by (simp add: ties_even_def)
next
  case False
  then have c: "\<lceil>r\<rceil> = \<lfloor>r\<rfloor> + 1" by (simp add: ceiling_altdef)
  have f: "\<lfloor>- r\<rfloor> = - \<lfloor>r\<rfloor> - 1" by (simp add: floor_minus c)
  have pos: "0 < r - of_int \<lfloor>r\<rfloor>"
    using False of_int_floor_le [of r] by linarith
  show ?thesis
    unfolding ties_even_def f
    using pos by (auto simp: algebra_simps)
qed

lemma expo64_neg: "expo64 (- x) = expo64 x"
  by (simp add: expo64_def)

lemma round64_neg: "round64 (- x) = - round64 x"
  by (simp add: round64_def ulp64_def expo64_neg ties_even_neg)

lemma binary64_neg: "binary64 (- x) = map_option uminus (binary64 x)"
  by (simp add: binary64_def round64_neg)

lemma binary64_None_iff: "binary64 x = None \<longleftrightarrow> threshold64 \<le> \<bar>x\<bar>"
  by (simp add: binary64_def)

lemma ulp64_pos: "0 < ulp64 x"
  by (simp add: ulp64_def)

lemma round64_nonneg: "0 \<le> x \<Longrightarrow> 0 \<le> round64 x"
proof -
  assume "0 \<le> x"
  then have "0 \<le> x / ulp64 x" using ulp64_pos [of x] by simp
  then have "0 \<le> \<lfloor>x / ulp64 x\<rfloor>" by simp
  then have "0 \<le> ties_even (x / ulp64 x)"
    using ties_even_ge_floor [of "x / ulp64 x"] by linarith
  then show ?thesis using ulp64_pos [of x] by (simp add: round64_def)
qed

lemma round64_nonpos: "x \<le> 0 \<Longrightarrow> round64 x \<le> 0"
  using round64_nonneg [of "- x"] by (simp add: round64_neg)

lemma round64_lower:
  assumes "- 1022 \<le> k" "2 powi k \<le> x"
  shows "2 powi k \<le> round64 x"
proof -
  have "x \<le> 2 powi (expo64 x + 1)"
    using expo64_normal(2) [OF assms] by simp
  from round64_bounds(1) [OF assms this] show ?thesis .
qed

lemma expo64_le:
  assumes "0 \<le> x" "x \<le> 2 powi m" "- 1022 \<le> m"
  shows "expo64 x \<le> m"
proof (cases "x < 2 powi (- 1022)")
  case True
  then show ?thesis using assms by (simp add: expo64_def)
next
  case False
  then have n: "2 powi (- 1022) \<le> x" by simp
  show ?thesis
  proof (rule ccontr)
    assume "\<not> expo64 x \<le> m"
    then have "m < expo64 x" by simp
    then have "(2::real) powi m < 2 powi (expo64 x)"
      by (rule power_int_strict_increasing) simp
    then show False
      using expo64_normal(1) [OF _ n] assms(2) by simp
  qed
qed

lemma round64_upper:
  assumes "0 \<le> x" "x \<le> 2 powi m" "- 1022 \<le> m"
  shows "round64 x \<le> 2 powi m"
proof -
  define e where "e = expo64 x"
  define u :: real where "u = 2 powi (e - 52)"
  define r where "r = x / u"
  define j where "j = nat (m - e + 52)"
  have u: "0 < u" by (simp add: u_def)
  have em: "e \<le> m" unfolding e_def by (rule expo64_le [OF assms])
  have rd: "round64 x = of_int (ties_even r) * u"
    by (simp add: round64_def ulp64_def r_def u_def e_def)
  have "(2::real) powi (m - e + 52) = 2 ^ j"
    unfolding j_def using em by (intro power_int_nonneg_exp) simp
  then have mu: "(2::real) powi m = 2 ^ j * u"
    using power_int_add [of "2::real" "m - e + 52" "e - 52"] by (simp add: u_def)
  have "x \<le> 2 ^ j * u" using assms(2) mu by simp
  then have "r \<le> 2 ^ j" using u by (simp add: r_def pos_divide_le_eq)
  then have "r \<le> of_int (2 ^ j)" by simp
  then have "\<lceil>r\<rceil> \<le> 2 ^ j" by (simp only: ceiling_le_iff)
  then have "ties_even r \<le> 2 ^ j" using ties_even_le_ceiling [of r] by linarith
  then have "of_int (ties_even r) \<le> (2::real) ^ j"
    by (metis of_int_le_iff of_int_numeral of_int_power)
  then have "of_int (ties_even r) * u \<le> 2 ^ j * u"
    using u by (intro mult_right_mono) simp_all
  then show ?thesis by (simp only: rd mu)
qed

lemma round64_pos:
  assumes "2 powi (- 1074) \<le> x"
  shows "0 < round64 x"
proof (cases "x < 2 powi (- 1022)")
  case False
  then have "2 powi (- 1022) \<le> round64 x"
    by (intro round64_lower) simp_all
  then show ?thesis by (rule less_le_trans [rotated]) simp
next
  case True
  have x: "0 < x" using assms by (rule less_le_trans [rotated]) simp
  then have e: "expo64 x = - 1022" using True by (simp add: expo64_def)
  have u: "(0::real) < 2 powi (- 1074)" by simp
  have "1 \<le> x / 2 powi (- 1074)"
    using assms by (simp only: pos_le_divide_eq [OF u])
  then have "1 \<le> \<lfloor>x / 2 powi (- 1074)\<rfloor>" by simp
  then have "1 \<le> ties_even (x / 2 powi (- 1074))"
    using ties_even_ge_floor [of "x / 2 powi (- 1074)"] by linarith
  then have "(1::real) \<le> of_int (ties_even (x / 2 powi (- 1074)))" by simp
  then have "1 * (2::real) powi (- 1074) \<le> of_int (ties_even (x / 2 powi (- 1074))) * 2 powi (- 1074)"
    by (rule mult_right_mono) simp
  then have "2 powi (- 1074) \<le> round64 x"
    by (simp add: round64_def ulp64_def e)
  then show ?thesis by (rule less_le_trans [rotated]) simp
qed

lemma threshold64_less: "threshold64 < 2 powi 1024"
proof -
  have "(2 - 1 / 2 ^ 53) * 2 ^ 1023 < (2::real) * 2 ^ 1023"
    by (rule mult_strict_right_mono) simp_all
  also have "\<dots> = 2 powi 1024" by simp
  finally show ?thesis by (simp only: threshold64_def)
qed

lemma threshold64_gt: "2 powi 1023 < threshold64"
proof -
  have "(2::real) powi 1023 = 1 * 2 ^ 1023" by simp
  also have "\<dots> < (2 - 1 / 2 ^ 53) * 2 ^ 1023"
    by (rule mult_strict_right_mono) simp_all
  finally show ?thesis by (simp only: threshold64_def)
qed

section \<open>The Milky Way silicate density in binary64\<close>






section \<open>Positive densities\<close>




section \<open>The branch of \<open>f1\<close> for a non-positive \<open>beta\<close> in binary64\<close>

lemma fmul_binary64_neg: "fmul binary64 (- x) y = map_option uminus (fmul binary64 x y)"
  using binary64_neg [of "x * y"] by (simp add: fmul_def)

lemma fdiv_binary64_neg: "fdiv binary64 (- x) y = map_option uminus (fdiv binary64 x y)"
  using binary64_neg [of "x / y"] by (simp add: fdiv_def)

lemma binary64_Some: "binary64 x = Some v \<Longrightarrow> v = round64 x \<and> \<bar>x\<bar> < threshold64"
  by (simp add: binary64_def split: if_splits)

text \<open>
  If the product \<open>beta*a\<close>, the quotient by \<open>a_t\<close> and the denominator are finite doubles,
  the denominator is at least 1 and the quotient \<open>f1\<close> is a double in \<open>(0, 1]\<close>.
\<close>

lemma grasil_f1_binary64_nonpos:
  assumes "0 < a" "0 < a_t" "beta \<le> 0"
    and m: "fmul binary64 beta a = Some m"
    and d: "fdiv binary64 m a_t = Some d"
    and s: "fsub binary64 1 d = Some s"
  shows "1 \<le> s \<and> (\<exists>v. grasil_f1 binary64 a a_t beta = Some v \<and> 0 < v \<and> v \<le> 1)"
proof -
  have "beta * a \<le> 0" using assms(1,3) by (simp add: mult_le_0_iff)
  then have m0: "m \<le> 0"
    using binary64_Some [OF m [unfolded fmul_def]] round64_nonpos by simp
  have at: "a_t \<noteq> 0" using assms(2) by simp
  have "m / a_t \<le> 0" using m0 assms(2) by (simp add: divide_le_0_iff)
  then have d0: "d \<le> 0"
    using binary64_Some [of "m / a_t" d] d at round64_nonpos by (simp add: fdiv_def)
  have sv: "s = round64 (1 - d)" "\<bar>1 - d\<bar> < threshold64"
    using binary64_Some [OF s [unfolded fsub_def]] by simp_all
  have "(2::real) powi 0 \<le> 1 - d" using d0 by simp
  then have "2 powi 0 \<le> round64 (1 - d)" by (intro round64_lower) simp_all
  then have s1: "1 \<le> s" using sv by simp
  have "1 - d \<le> 2 powi 1024" using sv(2) threshold64_less by simp
  then have "round64 (1 - d) \<le> 2 powi 1024"
    using d0 by (intro round64_upper) simp_all
  then have s2: "s \<le> 2 powi 1024" using sv by simp
  have sp: "0 < s" using s1 by simp
  have "1 / 2 powi 1024 \<le> 1 / s"
    using s2 sp by (intro divide_left_mono) simp_all
  then have "2 powi (- 1024) \<le> 1 / s"
    by (simp only: power_int_minus inverse_eq_divide)
  moreover have "(2::real) powi (- 1074) \<le> 2 powi (- 1024)"
    by (rule power_int_increasing) simp_all
  ultimately have lo: "2 powi (- 1074) \<le> 1 / s" by simp
  have hi: "1 / s \<le> 2 powi 0" using s1 by simp
  have nn: "0 \<le> 1 / s" using sp by simp
  have "\<bar>1 / s\<bar> \<le> 2 powi 0" using hi nn by simp
  then have "\<bar>1 / s\<bar> < threshold64"
    using below_threshold64 [of 0 "1 / s"] by simp
  then have q: "fdiv binary64 1 s = Some (round64 (1 / s))"
    using sp by (simp add: fdiv_def binary64_def)
  have f: "grasil_f1 binary64 a a_t beta = Some (round64 (1 / s))"
    using assms(3) m d s q by (simp add: grasil_f1_def)
  have "0 < round64 (1 / s)" by (rule round64_pos [OF lo])
  moreover have "round64 (1 / s) \<le> 2 powi 0"
    using nn hi by (rule round64_upper) simp
  ultimately show ?thesis using s1 f by simp
qed

text \<open>
  Claim C9, as amended. In the branch of \<open>f1\<close> for \<open>beta \<le> 0\<close>, with \<open>a > 0\<close> and
  \<open>a_t > 0\<close>: in exact arithmetic the denominator \<open>1 - beta*a/a_t\<close> is at least 1, the
  division is by no zero, \<open>0 < f1 \<le> 1\<close>, and the division can only fail at a negative
  radius; in binary64, whenever the product \<open>beta*a\<close>, its quotient by \<open>a_t\<close> and the
  denominator are finite doubles, the computed denominator is at least 1 and the computed
  \<open>f1\<close> is a double with \<open>0 < f1 \<le> 1\<close>.
\<close>

theorem grasil_f1_nonpos_beta_safe:
  assumes "0 < a" "0 < a_t" "beta \<le> 0"
  shows "1 \<le> 1 - beta * a / a_t
    \<and> grasil_f1 exact a a_t beta = Some (1 / (1 - beta * a / a_t))
    \<and> 0 < 1 / (1 - beta * a / a_t) \<and> 1 / (1 - beta * a / a_t) \<le> 1
    \<and> (\<forall>r. grasil_f1 exact r a_t beta = None \<longrightarrow> r < 0)
    \<and> (\<forall>m d s. fmul binary64 beta a = Some m \<longrightarrow> fdiv binary64 m a_t = Some d
          \<longrightarrow> fsub binary64 1 d = Some s
          \<longrightarrow> 1 \<le> s \<and> (\<exists>v. grasil_f1 binary64 a a_t beta = Some v \<and> 0 < v \<and> v \<le> 1))"
proof -
  have d: "1 \<le> 1 - beta * a / a_t" by (rule grasil_f1_denom [OF assms])
  then have "0 < 1 / (1 - beta * a / a_t)" "1 / (1 - beta * a / a_t) \<le> 1"
    by simp_all
  moreover have "\<forall>r. grasil_f1 exact r a_t beta = None \<longrightarrow> r < 0"
    using grasil_f1_none_neg [OF assms(2,3)] by blast
  moreover have "\<forall>m d s. fmul binary64 beta a = Some m \<longrightarrow> fdiv binary64 m a_t = Some d
          \<longrightarrow> fsub binary64 1 d = Some s
          \<longrightarrow> 1 \<le> s \<and> (\<exists>v. grasil_f1 binary64 a a_t beta = Some v \<and> 0 < v \<and> v \<le> 1)"
    using grasil_f1_binary64_nonpos [OF assms] by blast
  ultimately show ?thesis
    using d grasil_f1_exact_nonpos [OF assms] by blast
qed

text \<open>
  The theorem at the Milky Way graphite table (\<open>beta = -0.165\<close>, \<open>a_t = 0.0107e-6\<close>) and
  the radius \<open>0.01e-6\<close>, each the double of its literal: the three intermediate values
  are finite doubles, and \<open>f1\<close> is a double in \<open>(0, 1]\<close>.
\<close>

theorem grasil_f1_nonpos_beta_safe_witness:
  "\<exists>a a_t b m d s v. binary64 (1 / 10 ^ 8) = Some a \<and> binary64 (107 / 10 ^ 10) = Some a_t
     \<and> binary64 (165 / 1000) = Some b \<and> 0 < a \<and> 0 < a_t \<and> - b \<le> 0
     \<and> fmul binary64 (- b) a = Some m \<and> fdiv binary64 m a_t = Some d
     \<and> fsub binary64 1 d = Some s \<and> 1 \<le> s
     \<and> grasil_f1 binary64 a a_t (- b) = Some v \<and> 0 < v \<and> v \<le> 1
     \<and> grasil_f1 exact a a_t (- b) = Some (1 / (1 - (- b) * a / a_t))
     \<and> 1 \<le> 1 - (- b) * a / a_t"
proof -
  obtain a where a: "binary64 (1 / 10 ^ 8) = Some a" "2 powi (- 27) \<le> a" "a \<le> 2 powi (- 26)"
    using binary64_bounds [of "- 27" "- 26" "1 / 10 ^ 8"] by auto
  obtain a_t where at: "binary64 (107 / 10 ^ 10) = Some a_t" "2 powi (- 27) \<le> a_t"
      "a_t \<le> 2 powi (- 26)"
    using binary64_bounds [of "- 27" "- 26" "107 / 10 ^ 10"] by auto
  obtain b where b: "binary64 (165 / 1000) = Some b" "2 powi (- 3) \<le> b" "b \<le> 2 powi (- 2)"
    using binary64_bounds [of "- 3" "- 2" "165 / 1000"] by auto
  obtain m' where m': "fmul binary64 b a = Some m'" "2 powi (- 3 + - 27) \<le> m'"
      "m' \<le> 2 powi (- 2 + - 26)"
    using b64_mul [OF b(2,3) a(2,3)] by auto
  obtain d' where d': "fdiv binary64 m' a_t = Some d'" "2 powi (- 3 + - 27 - - 26) \<le> d'"
      "d' \<le> 2 powi (- 2 + - 26 - - 27)"
    using b64_div [OF m'(2,3) at(2,3)] by auto
  have d0: "0 < d'" using d'(2) by (rule less_le_trans [rotated]) simp
  have "d' \<le> 1" using d'(3) by simp
  then have "(2::real) powi 0 \<le> 1 + d'" "1 + d' \<le> 2 powi 1" using d0 by simp_all
  then obtain s where s: "binary64 (1 + d') = Some s"
    using binary64_bounds [of 0 1 "1 + d'"] by auto
  have m: "fmul binary64 (- b) a = Some (- m')" by (simp add: fmul_binary64_neg m'(1))
  have d: "fdiv binary64 (- m') a_t = Some (- d')" by (simp add: fdiv_binary64_neg d'(1))
  have s': "fsub binary64 1 (- d') = Some s" using s by (simp add: fsub_def)
  have h: "0 < a" "0 < a_t" "- b \<le> 0"
    using a(2) at(2) b(2) by (auto intro: less_le_trans [rotated] order_trans [rotated])
  show ?thesis
    using h a(1) at(1) b(1) m d s' grasil_f1_nonpos_beta_safe [OF h] by blast
qed

text \<open>
  In binary64 the claim fails where the product \<open>beta*a\<close> overflows. The doubles
  \<open>a = 2^100\<close>, \<open>a_t = 1\<close> and \<open>beta = -2^1000\<close> satisfy the premises; the product
  \<open>beta*a = -2^1100\<close> is not a finite double, so no finite denominator is computed: the
  source goes on with \<open>-inf\<close>, its denominator is \<open>+inf\<close> and its \<open>f1 = 1/inf\<close> is
  \<open>0.0\<close>, which is not positive. The exact value of \<open>f1\<close> is \<open>1/(1 + 2^1100)\<close>, and
  the double nearest to it is 0 as well.
\<close>

theorem grasil_f1_overflow_counterexample:
  "(0::real) < 2 powi 100 \<and> (0::real) < 1 \<and> - (2 powi 1000) \<le> (0::real)
   \<and> binary64 (2 powi 100) = Some (2 powi 100) \<and> binary64 1 = Some 1
   \<and> binary64 (- (2 powi 1000)) = Some (- (2 powi 1000))
   \<and> fmul binary64 (- (2 powi 1000)) (2 powi 100) = None
   \<and> \<not> (\<exists>v. grasil_f1 binary64 (2 powi 100) 1 (- (2 powi 1000)) = Some v \<and> 0 < v \<and> v \<le> 1)
   \<and> binary64 (1 / (1 - (- (2 powi 1000)) * 2 powi 100 / 1)) = Some 0"
proof -
  have a: "binary64 (2 powi 100) = Some (2 powi 100)"
    using binary64_bounds [of 100 100 "2 powi 100"] by auto
  have "binary64 (2 powi 0) = Some (2 powi 0)"
    using binary64_bounds [of 0 0 "2 powi 0"] by auto
  then have o: "binary64 1 = Some 1" by simp
  have "binary64 (2 powi 1000) = Some (2 powi 1000)"
    using binary64_bounds [of 1000 1000 "2 powi 1000"] by auto
  then have b: "binary64 (- (2 powi 1000)) = Some (- (2 powi 1000))"
    by (simp add: binary64_neg)
  have p: "(2::real) powi 1000 * 2 powi 100 = 2 powi 1100"
    using power_int_add [of "2::real" 1000 100] by simp
  have "(2::real) powi 1024 \<le> 2 powi 1100"
    by (rule power_int_increasing) simp_all
  then have t: "threshold64 \<le> 2 powi 1100" using threshold64_less by simp
  have "\<bar>- (2 powi 1000) * 2 powi 100 :: real\<bar> = 2 powi 1100"
    using p by simp
  then have m: "fmul binary64 (- (2 powi 1000)) (2 powi 100) = None"
    using t unfolding fmul_def binary64_def by (simp only: if_True)
  have f: "grasil_f1 binary64 (2 powi 100) 1 (- (2 powi 1000)) = None"
    unfolding grasil_f1_def using m by simp
  have "1 / (1 - (- (2 powi 1000)) * 2 powi 100 / 1) = 1 / (1 + (2::real) powi 1100)"
    using p by simp
  also have "\<dots> \<le> 1 / 2 powi 1100"
    by (intro divide_left_mono) simp_all
  also have "\<dots> = 2 powi (- 1100)"
    by (simp only: power_int_minus inverse_eq_divide)
  also have "\<dots> < 2 powi (- 1075)"
    by (rule power_int_strict_increasing) simp_all
  finally have lt: "1 / (1 - (- (2 powi 1000)) * 2 powi 100 / 1) < (2::real) powi (- 1075)" .
  have "(0::real) \<le> 1 / (1 - (- (2 powi 1000)) * 2 powi 100 / 1)" by simp
  then have u: "binary64 (1 / (1 - (- (2 powi 1000)) * 2 powi 100 / 1)) = Some 0"
    using lt by (rule binary64_underflow)
  show ?thesis
    using a o b m f u by simp
qed

section \<open>The relative error of a rounding\<close>

lemma ties_even_error: "\<bar>of_int (ties_even r) - r\<bar> \<le> 1 / 2"
proof -
  have "of_int \<lfloor>r\<rfloor> \<le> r" "r < of_int \<lfloor>r\<rfloor> + 1" by linarith+
  then show ?thesis by (auto simp: ties_even_def)
qed

lemma round64_error:
  assumes "2 powi (- 1022) \<le> x"
  shows "\<bar>round64 x - x\<bar> \<le> x / 2 ^ 53"
proof -
  define e where "e = expo64 x"
  define u :: real where "u = 2 powi (e - 52)"
  define r where "r = x / u"
  have u: "0 < u" by (simp add: u_def)
  have ex: "2 powi e \<le> x" unfolding e_def by (rule expo64_normal(1) [OF _ assms]) simp
  have rd: "round64 x = of_int (ties_even r) * u"
    by (simp add: round64_def ulp64_def r_def u_def e_def)
  have x: "x = r * u" using u by (simp add: r_def)
  have "round64 x - x = (of_int (ties_even r) - r) * u"
    by (simp only: rd x [symmetric] left_diff_distrib)
  then have "\<bar>round64 x - x\<bar> = \<bar>of_int (ties_even r) - r\<bar> * u"
    using u by (simp add: abs_mult)
  also have "\<dots> \<le> 1 / 2 * u"
    using ties_even_error [of r] u by (intro mult_right_mono) simp_all
  also have "\<dots> = 2 powi e / 2 ^ 53"
    using power_int_add [of "2::real" e "- 53"] power_int_add [of "2::real" "e - 52" "- 1"]
    by (simp add: u_def power_int_minus field_simps)
  also have "\<dots> \<le> x / 2 ^ 53" using ex by (simp add: divide_right_mono)
  finally show ?thesis .
qed

lemma round64_ln:
  assumes "2 powi (- 1022) \<le> x"
  shows "0 < round64 x" "\<bar>ln (round64 x) - ln x\<bar> \<le> 1 / 2 ^ 52"
proof -
  define w :: real where "w = 1 / 2 ^ 53"
  define t where "t = round64 x / x"
  have x: "0 < x" using assms by (rule less_le_trans [rotated]) simp
  have w: "0 < w" "w \<le> 1 / 2" "2 * w = 1 / 2 ^ 52" "w\<^sup>2 \<le> w / 2"
    by (simp_all add: w_def power2_eq_square)
  have "\<bar>round64 x - x\<bar> \<le> x * w"
    using round64_error [OF assms] by (simp add: w_def)
  then have "\<bar>round64 x / x - 1\<bar> \<le> w"
    using x by (simp add: field_simps abs_le_iff)
  then have t: "1 - w \<le> t" "t \<le> 1 + w" by (simp_all add: t_def abs_le_iff)
  then have tp: "0 < t" using w by linarith
  then show "0 < round64 x" using x by (simp add: t_def zero_less_divide_iff)
  then have l: "ln (round64 x) - ln x = ln t" using x by (simp add: t_def ln_div)
  have "ln t \<le> ln (1 + w)" using t tp by simp
  also have "\<dots> \<le> w" using w by (intro ln_add_one_self_le_self) simp
  finally have up: "ln t \<le> 2 * w" using w by linarith
  have "- w - 2 * w\<^sup>2 \<le> ln (1 - w)"
    using w by (intro ln_one_minus_pos_lower_bound) simp_all
  moreover have "ln (1 - w) \<le> ln t" using t w by simp
  ultimately have "- (2 * w) \<le> ln t" using w by linarith
  with up have "\<bar>ln t\<bar> \<le> 2 * w" by (simp add: abs_le_iff)
  then show "\<bar>ln (round64 x) - ln x\<bar> \<le> 1 / 2 ^ 52"
    by (simp only: l w(3))
qed

text \<open>
  Rounding a value \<open>x\<close> that carries a logarithmic error \<open>e\<close> against the real number \<open>X\<close>
  it stands for: the double carries the error \<open>e + 2^-52\<close>.
\<close>

lemma exp_1_le_4: "exp (1::real) \<le> 4"
  using exp_le by simp

lemma binary64_close:
  assumes "0 < X" "0 < x" "\<bar>ln x - ln X\<bar> \<le> e" "e \<le> 1"
    and "2 powi (- 1020) \<le> X" "X \<le> 2 powi 1020"
  shows "\<exists>v. binary64 x = Some v \<and> 0 < v \<and> \<bar>ln v - ln X\<bar> \<le> e + 1 / 2 ^ 52"
proof -
  have "ln x \<le> ln X + 1" "ln X - 1 \<le> ln x" using assms(3,4) by (simp_all add: abs_le_iff)
  then have "exp (ln x) \<le> exp (ln X + 1)" "exp (ln X - 1) \<le> exp (ln x)"
    by (simp_all only: exp_le_cancel_iff)
  then have b: "x \<le> X * exp 1" "X / exp 1 \<le> x"
    using assms(1,2) by (simp_all add: exp_add exp_diff)
  have "X * exp 1 \<le> 2 powi 1020 * 4"
    using assms(1,6) exp_1_le_4 by (intro mult_mono) simp_all
  also have "\<dots> = 2 powi 1022" using power_int_add [of "2::real" 1020 2] by simp
  finally have hi: "x \<le> 2 powi 1022" by (rule order_trans [OF b(1)])
  have "2 powi (- 1022) = 2 powi (- 1020) / (4::real)"
    using power_int_add [of "2::real" "- 1020" "- 2"] by (simp add: power_int_minus)
  also have "\<dots> \<le> X / exp 1"
    using assms(1,5) exp_1_le_4 by (intro frac_le) simp_all
  finally have "2 powi (- 1022) \<le> X / exp 1" .
  then have lo: "2 powi (- 1022) \<le> x" using b(2) by (rule order_trans)
  have "\<bar>x\<bar> \<le> 2 powi 1022" using hi assms(2) by simp
  then have "binary64 x = Some (round64 x)"
    using below_threshold64 [of 1022 x] by (simp add: binary64_def)
  moreover have "\<bar>ln (round64 x) - ln X\<bar> \<le> e + 1 / 2 ^ 52"
    using round64_ln(2) [OF lo] assms(3) by linarith
  ultimately show ?thesis using round64_ln(1) [OF lo] by simp
qed

lemma binary64_literal:
  assumes "2 powi (- 1020) \<le> X" "X \<le> 2 powi 1020"
  shows "\<exists>v. binary64 X = Some v \<and> 0 < v \<and> \<bar>ln v - ln X\<bar> \<le> 1 / 2 ^ 52"
proof -
  have X: "0 < X" using assms(1) by (rule less_le_trans [rotated]) simp
  show ?thesis using binary64_close [OF X X _ _ assms, of 0] by simp
qed

lemma b64_mul_close:
  assumes "0 < X" "0 < x" "\<bar>ln x - ln X\<bar> \<le> ex"
    and "0 < Y" "0 < y" "\<bar>ln y - ln Y\<bar> \<le> ey"
    and "ex + ey \<le> 1" "2 powi (- 1020) \<le> X * Y" "X * Y \<le> 2 powi 1020"
  shows "\<exists>v. fmul binary64 x y = Some v \<and> 0 < v \<and> \<bar>ln v - ln (X * Y)\<bar> \<le> ex + ey + 1 / 2 ^ 52"
proof -
  have "\<bar>ln (x * y) - ln (X * Y)\<bar> \<le> ex + ey"
    using assms(1-6) by (simp add: ln_mult)
  moreover have "0 < X * Y" "0 < x * y" using assms(1,2,4,5) by simp_all
  ultimately show ?thesis
    unfolding fmul_def using assms(7-9) by (intro binary64_close) simp_all
qed

lemma b64_div_close:
  assumes "0 < X" "0 < x" "\<bar>ln x - ln X\<bar> \<le> ex"
    and "0 < Y" "0 < y" "\<bar>ln y - ln Y\<bar> \<le> ey"
    and "ex + ey \<le> 1" "2 powi (- 1020) \<le> X / Y" "X / Y \<le> 2 powi 1020"
  shows "\<exists>v. fdiv binary64 x y = Some v \<and> 0 < v \<and> \<bar>ln v - ln (X / Y)\<bar> \<le> ex + ey + 1 / 2 ^ 52"
proof -
  have "\<bar>ln (x / y) - ln (X / Y)\<bar> \<le> ex + ey"
    using assms(1-6) by (simp add: ln_div)
  moreover have "0 < X / Y" "0 < x / y" using assms(1,2,4,5) by simp_all
  ultimately have "\<exists>v. binary64 (x / y) = Some v \<and> 0 < v
      \<and> \<bar>ln v - ln (X / Y)\<bar> \<le> ex + ey + 1 / 2 ^ 52"
    using assms(7-9) by (intro binary64_close) simp_all
  then show ?thesis using assms(5) by (simp add: fdiv_def)
qed

lemma one_plus_close:
  assumes "0 < (D::real)" "0 < d" "\<bar>ln d - ln D\<bar> \<le> e"
  shows "\<bar>ln (1 + d) - ln (1 + D)\<bar> \<le> e"
proof -
  have mono: "ln (1 + v) - ln (1 + u) \<le> ln v - ln u" "0 \<le> ln (1 + v) - ln (1 + u)"
    if "0 < u" "u \<le> v" for u v :: real
  proof -
    have v: "0 < v" using that by simp
    have "(1 + v) * u \<le> v * (1 + u)" using that by (simp add: algebra_simps)
    then have "(1 + v) / (1 + u) \<le> v / u"
      using that v by (simp add: field_simps)
    moreover have "0 < (1 + v) / (1 + u)" using that v by (simp add: add_pos_pos)
    ultimately have "ln ((1 + v) / (1 + u)) \<le> ln (v / u)"
      by (simp only: ln_le_cancel_iff) 
    then show "ln (1 + v) - ln (1 + u) \<le> ln v - ln u"
      using that v by (simp add: ln_div add_pos_pos)
    show "0 \<le> ln (1 + v) - ln (1 + u)" using that v by (simp add: add_pos_pos)
  qed
  show ?thesis
  proof (cases "D \<le> d")
    case True
    from mono [OF assms(1) True] assms(3) show ?thesis by linarith
  next
    case False
    then have "d \<le> D" by simp
    from mono [OF assms(2) this] assms(3) show ?thesis by linarith
  qed
qed

lemma powr_close:
  assumes "0 < (R::real)" "0 < r" "\<bar>ln r - ln R\<bar> \<le> e" "\<bar>y - Y\<bar> \<le> ey" "\<bar>y\<bar> \<le> 2" "\<bar>ln R\<bar> \<le> 1"
  shows "\<bar>ln (r powr y) - ln (R powr Y)\<bar> \<le> 2 * e + ey"
proof -
  have "ln (r powr y) - ln (R powr Y) = y * (ln r - ln R) + (y - Y) * ln R"
    by (simp add: algebra_simps)
  also have "\<bar>\<dots>\<bar> \<le> \<bar>y * (ln r - ln R)\<bar> + \<bar>(y - Y) * ln R\<bar>" by (rule abs_triangle_ineq)
  also have "\<dots> = \<bar>y\<bar> * \<bar>ln r - ln R\<bar> + \<bar>y - Y\<bar> * \<bar>ln R\<bar>" by (simp only: abs_mult)
  also have "\<dots> \<le> 2 * e + ey * 1"
    using assms(3-6) by (intro add_mono mult_mono) simp_all
  finally show ?thesis by simp
qed

lemma close_abs:
  assumes "0 < (X::real)" "0 < v" "\<bar>ln v - ln X\<bar> \<le> e" "e \<le> 1"
  shows "\<bar>v - X\<bar> \<le> 2 * e * X"
proof -
  have e: "0 \<le> e" using assms(3) by linarith
  have "ln v \<le> ln X + e" "ln X - e \<le> ln v" using assms(3) by (simp_all add: abs_le_iff)
  then have "exp (ln v) \<le> exp (ln X + e)" "exp (ln X - e) \<le> exp (ln v)"
    by (simp_all only: exp_le_cancel_iff)
  then have b: "v \<le> X * exp e" "X * exp (- e) \<le> v"
    using assms(1,2) by (simp_all add: exp_add exp_diff exp_minus field_simps)
  have "e\<^sup>2 \<le> e * 1" unfolding power2_eq_square using e assms(4) by (intro mult_left_mono) 
  then have "exp e \<le> 1 + 2 * e" using exp_bound [OF e assms(4)] by simp
  then have "X * exp e \<le> X * (1 + 2 * e)" using assms(1) by (intro mult_left_mono) simp_all
  then have up: "v - X \<le> 2 * e * X" using b(1) by (simp add: algebra_simps)
  have "1 - e \<le> exp (- e)" using exp_ge_add_one_self [of "- e"] by simp
  then have "X * (1 - e) \<le> X * exp (- e)" using assms(1) by (intro mult_left_mono) simp_all
  then have "- (e * X) \<le> v - X" using b(2) by (simp add: algebra_simps)
  moreover have "e * X \<le> 2 * e * X" using e assms(1) by simp
  ultimately show ?thesis using up by (simp add: abs_le_iff)
qed

section \<open>The Milky Way graphite density at the radius \<open>0.01e-6\<close>\<close>

text \<open>
  The run of \<open>dnda_gra_mwy\<close> in binary64 at the double of \<open>0.01e-6\<close>, each intermediate
  double with its logarithmic error against the real number it stands for. The radius is
  below the transition radius, so \<open>f2 = 1\<close>; a rounding adds at most \<open>2^-52\<close>, the power
  doubles the error of its base and adds that of its exponent, and the errors add up to
  at most \<open>21 * 2^-52\<close>.
\<close>

lemma literal_below:
  assumes "binary64 X = Some x" "binary64 Y = Some y" "2 powi (- 1022) \<le> X"
    and "X * (1 + 1 / 2 ^ 53) < Y * (1 - 1 / 2 ^ 53)"
  shows "x < y"
proof -
  have X: "0 < X" using assms(3) by (rule less_le_trans [rotated]) simp
  have "X * (1 - 1 / 2 ^ 53) \<le> X * (1 + 1 / 2 ^ 53)"
    using X by (intro mult_left_mono) simp_all
  then have "X * (1 - 1 / 2 ^ 53) < Y * (1 - 1 / 2 ^ 53)" using assms(4) by simp
  then have XY: "X < Y" by (simp only: mult_less_cancel_right) simp
  then have Y: "2 powi (- 1022) \<le> Y" using assms(3) by simp
  have x: "x = round64 X" and y: "y = round64 Y"
    using binary64_Some [OF assms(1)] binary64_Some [OF assms(2)] by simp_all
  have "\<bar>x - X\<bar> \<le> X / 2 ^ 53" "\<bar>y - Y\<bar> \<le> Y / 2 ^ 53"
    unfolding x y by (rule round64_error [OF assms(3)], rule round64_error [OF Y])
  then have "x \<le> X + X / 2 ^ 53" "Y - Y / 2 ^ 53 \<le> y" by linarith+
  moreover have "X + X / 2 ^ 53 < Y - Y / 2 ^ 53" using assms(4) by (simp add: algebra_simps)
  ultimately show ?thesis by linarith
qed

lemma gra_mwy_binary64:
  fixes A C' AT AL BE :: real
  defines "A \<equiv> 1 / 10 ^ 8" and "C' \<equiv> 999 / 10 ^ 14" and "AT \<equiv> 107 / 10 ^ 10"
    and "AL \<equiv> 154 / 100" and "BE \<equiv> 165 / 1000"
  shows "\<exists>a v. binary64 A = Some a \<and> dnda_gra_mwy binary64 a = Some v \<and> 0 < v
    \<and> \<bar>ln v - ln (C' / A * (A / AT) powr (- AL) * (1 / (1 + BE * A / AT)))\<bar> \<le> 21 / 2 ^ 52"
proof -
  define u :: real where "u = 1 / 2 ^ 52"
  have u: "0 < u" "21 * u \<le> 1" by (simp_all add: u_def)
  have A: "0 < A" "2 powi (- 1020) \<le> A" "A \<le> 2 powi 1020" by (simp_all add: A_def)
  have C: "0 < C'" "2 powi (- 1020) \<le> C'" "C' \<le> 2 powi 1020" by (simp_all add: C'_def)
  have AT: "0 < AT" "2 powi (- 1020) \<le> AT" "AT \<le> 2 powi 1020" by (simp_all add: AT_def)
  have BE: "0 < BE" "2 powi (- 1020) \<le> BE" "BE \<le> 2 powi 1020" by (simp_all add: BE_def)
  obtain a where a: "binary64 A = Some a" "0 < a" "\<bar>ln a - ln A\<bar> \<le> u"
    using binary64_literal [OF A(2,3)] unfolding u_def by blast
  obtain c where c: "binary64 C' = Some c" "0 < c" "\<bar>ln c - ln C'\<bar> \<le> u"
    using binary64_literal [OF C(2,3)] unfolding u_def by blast
  obtain t where t: "binary64 AT = Some t" "0 < t" "\<bar>ln t - ln AT\<bar> \<le> u"
    using binary64_literal [OF AT(2,3)] unfolding u_def by blast
  obtain b where b: "binary64 BE = Some b" "0 < b" "\<bar>ln b - ln BE\<bar> \<le> u"
    using binary64_literal [OF BE(2,3)] unfolding u_def by blast
  obtain ac where ac: "binary64 (428 / 10 ^ 9) = Some ac"
    using binary64_bounds [of "- 22" "- 21" "428 / 10 ^ 9"] by auto
  have "(2::real) powi 0 \<le> AL" "AL \<le> 2 powi 1" by (simp_all add: AL_def)
  then obtain al where al: "binary64 AL = Some al" "2 powi 0 \<le> al" "al \<le> 2 powi 1"
    using binary64_bounds [of 0 1 AL] by auto
  have "al = round64 AL" using binary64_Some [OF al(1)] by simp
  moreover have "\<bar>round64 AL - AL\<bar> \<le> AL / 2 ^ 53"
    by (rule round64_error) (simp add: AL_def)
  moreover have "AL / 2 ^ 53 \<le> u" by (simp add: AL_def u_def)
  ultimately have al_err: "\<bar>- al - - AL\<bar> \<le> u" by linarith
  have al2: "\<bar>- al\<bar> \<le> 2" using al(2,3) by simp
  have lt: "a < t"
    by (rule literal_below [OF a(1) t(1)]) (simp_all add: A_def AT_def)
  text \<open>The factor \<open>f0\<close>.\<close>
  have "2 powi (- 1020) \<le> C' / A" "C' / A \<le> 2 powi 1020" by (simp_all add: A_def C'_def)
  then obtain q where q: "fdiv binary64 c a = Some q" "0 < q" "\<bar>ln q - ln (C' / A)\<bar> \<le> u + u + u"
    using b64_div_close [OF C(1) c(2,3) A(1) a(2,3)] u unfolding u_def by auto
  have "2 powi (- 1020) \<le> A / AT" "A / AT \<le> 2 powi 1020" by (simp_all add: A_def AT_def)
  then obtain r where r: "fdiv binary64 a t = Some r" "0 < r" "\<bar>ln r - ln (A / AT)\<bar> \<le> u + u + u"
    using b64_div_close [OF A(1) a(2,3) AT(1) t(2,3)] u unfolding u_def by auto
  have R: "0 < A / AT" "A / AT \<le> 1" "1 / 2 \<le> A / AT" by (simp_all add: A_def AT_def)
  have "ln (A / AT) \<le> 0" using ln_le_zero_iff [OF R(1)] R(2) by blast
  moreover have "- 1 \<le> ln (A / AT)"
  proof -
    have "exp (- 1) \<le> (1 / 2 :: real)"
      using exp_ge_add_one_self [of "1::real"] by (simp add: exp_minus field_simps)
    then have "exp (- 1) \<le> A / AT" using R(3) by (rule order_trans)
    then have "ln (exp (- 1)) \<le> ln (A / AT)" using R(1) by (simp only: ln_le_cancel_iff exp_gt_zero)
    then show ?thesis by simp
  qed
  ultimately have lnR: "\<bar>ln (A / AT)\<bar> \<le> 1" "0 \<le> - ln (A / AT)" "- ln (A / AT) \<le> 1" by linarith+
  have pc: "\<bar>ln (r powr (- al)) - ln ((A / AT) powr (- AL))\<bar> \<le> 2 * (u + u + u) + u"
    by (rule powr_close [OF R(1) r(2,3) al_err al2 lnR(1)])
  define P where "P = (A / AT) powr (- AL)"
  have "ln P = AL * (- ln (A / AT))" by (simp add: P_def)
  moreover have "0 \<le> AL * (- ln (A / AT))" using lnR(2) by (simp add: AL_def)
  moreover have "AL * (- ln (A / AT)) \<le> 2 * 1"
    using lnR(2,3) by (intro mult_mono) (simp_all add: AL_def)
  ultimately have lnP: "0 \<le> ln P" "ln P \<le> 2" by simp_all
  have P0: "0 < P" using A(1) AT(1) by (simp add: P_def)
  have "exp 0 \<le> exp (ln P)" "exp (ln P) \<le> exp 2" using lnP by (simp_all only: exp_le_cancel_iff)
  moreover have "exp (2::real) \<le> 4 * 4"
    using exp_add [of "1::real" 1] mult_mono [OF exp_1_le_4 exp_1_le_4] by simp
  ultimately have P: "1 \<le> P" "P \<le> 16" using P0 by simp_all
  have Pw: "2 powi (- 1020) \<le> P" "P \<le> 2 powi 1020"
    using P by (auto intro: order_trans [rotated])
  have "\<bar>ln (r powr (- al)) - ln P\<bar> \<le> 7 * u" using pc by (simp add: P_def)
  then obtain p where p: "binary64 (r powr (- al)) = Some p" "0 < p" "\<bar>ln p - ln P\<bar> \<le> 7 * u + u"
    using binary64_close [OF P0 _ _ _ Pw, of "r powr (- al)" "7 * u"] r(2) u unfolding u_def by auto
  have fp: "fpow binary64 r (- al) = Some p" using r(2) p(1) by (simp add: fpow_def pow_real_def)
  have Q0: "0 < C' / A" using A C by simp
  have Q: "1 / 1024 \<le> C' / A" "C' / A \<le> 1 / 512" by (simp_all add: A_def C'_def)
  have "1 / 1024 * 1 \<le> C' / A * P"
    using Q(1) P(1) by (rule mult_mono) (use Q0 in simp_all)
  then have QPl: "1 / 1024 \<le> C' / A * P" by (simp only: mult_1_right)
  have "C' / A * P \<le> 1 / 512 * 16"
    using Q(2) P(2) by (rule mult_mono) (use P0 in simp_all)
  then have QPu: "C' / A * P \<le> 1 / 32" by (simp only: times_divide_eq_left mult_1)
  have "(2::real) powi (- 1020) \<le> 1 / 1024" "(1 / 32 :: real) \<le> 2 powi 1020" by simp_all
  then have QP: "2 powi (- 1020) \<le> C' / A * P" "C' / A * P \<le> 2 powi 1020"
    using QPl QPu by linarith+
  obtain f0 where f0: "fmul binary64 q p = Some f0" "0 < f0"
      "\<bar>ln f0 - ln (C' / A * P)\<bar> \<le> u + u + u + (7 * u + u) + u"
    using b64_mul_close [OF Q0 q(2,3) P0 p(2,3) _ QP] u unfolding u_def by auto
  have g0: "grasil_f0 binary64 a c t (- al) = Some f0"
    by (simp add: grasil_f0_def q(1) r(1) fp f0(1))
  text \<open>The factor \<open>f1\<close>.\<close>
  have "2 powi (- 1020) \<le> BE * A" "BE * A \<le> 2 powi 1020" by (simp_all add: A_def BE_def)
  then obtain m where m: "fmul binary64 b a = Some m" "0 < m" "\<bar>ln m - ln (BE * A)\<bar> \<le> u + u + u"
    using b64_mul_close [OF BE(1) b(2,3) A(1) a(2,3)] u unfolding u_def by auto
  have M0: "0 < BE * A" using A BE by simp
  have "2 powi (- 1020) \<le> BE * A / AT" "BE * A / AT \<le> 2 powi 1020"
    by (simp_all add: A_def BE_def AT_def)
  then obtain d where d: "fdiv binary64 m t = Some d" "0 < d"
      "\<bar>ln d - ln (BE * A / AT)\<bar> \<le> u + u + u + u + u"
    using b64_div_close [OF M0 m(2,3) AT(1) t(2,3)] u unfolding u_def by auto
  have D0: "0 < BE * A / AT" using M0 AT by simp
  have S0: "0 < 1 + BE * A / AT" using D0 by simp
  have S: "2 powi (- 1020) \<le> 1 + BE * A / AT" "1 + BE * A / AT \<le> 2 powi 1020"
    by (simp_all add: A_def BE_def AT_def)
  have "\<bar>ln (1 + d) - ln (1 + BE * A / AT)\<bar> \<le> 5 * u"
    using one_plus_close [OF D0 d(2,3)] by simp
  then obtain s where s: "binary64 (1 + d) = Some s" "0 < s"
      "\<bar>ln s - ln (1 + BE * A / AT)\<bar> \<le> 5 * u + u"
    using binary64_close [OF S0 _ _ _ S, of "1 + d" "5 * u"] d(2) u unfolding u_def by auto
  have "2 powi (- 1020) \<le> 1 / (1 + BE * A / AT)" "1 / (1 + BE * A / AT) \<le> 2 powi 1020"
    by (simp_all add: A_def BE_def AT_def)
  then obtain f1 where f1: "fdiv binary64 1 s = Some f1" "0 < f1"
      "\<bar>ln f1 - ln (1 / (1 + BE * A / AT))\<bar> \<le> 0 + (5 * u + u) + u"
    using b64_div_close [OF _ _ _ S0 s(2,3), of 1 1 0] u unfolding u_def by auto
  have g1: "grasil_f1 binary64 a t (- b) = Some f1"
    using b(2) by (simp add: grasil_f1_def fmul_binary64_neg fdiv_binary64_neg fsub_def m(1) d(1)
        s(1) f1(1))
  text \<open>The factor \<open>f2\<close> and the product.\<close>
  have g2: "grasil_f2 binary64 a t ac = Some 1" using lt by (simp add: grasil_f2_def)
  define G where "G = 1 / (1 + BE * A / AT)"
  define F where "F = C' / A * P * (1 / (1 + BE * A / AT))"
  have F1: "0 < 1 / (1 + BE * A / AT)" using S0 by simp
  have F0: "0 < C' / A * P" using Q0 P0 by (rule mult_pos_pos)
  have Fp: "0 < F" unfolding F_def using F0 F1 by (rule mult_pos_pos)
  have "1 / 2 \<le> 1 / (1 + BE * A / AT)" "1 / (1 + BE * A / AT) \<le> 1"
    by (simp_all add: A_def BE_def AT_def)
  then have G: "1 / 2 \<le> G" "G \<le> 1" by (simp_all only: G_def)
  have "1 / 1024 * (1 / 2) \<le> C' / A * P * G"
    using QPl G(1) by (rule mult_mono) (use F0 in simp_all)
  moreover have "C' / A * P * G \<le> 1 / 32 * 1"
    using QPu G(2) by (rule mult_mono) (use G in simp_all)
  moreover have "(2::real) powi (- 1020) \<le> 1 / 1024 * (1 / 2)"
    "(1 / 32 * 1 :: real) \<le> 2 powi 1020" by simp_all
  ultimately have Fw: "2 powi (- 1020) \<le> F" "F \<le> 2 powi 1020"
    unfolding F_def G_def [symmetric] by linarith+
  obtain mm where mm: "fmul binary64 f0 f1 = Some mm" "0 < mm"
      "\<bar>ln mm - ln F\<bar> \<le> u + u + u + (7 * u + u) + u + (0 + (5 * u + u) + u) + u"
    using b64_mul_close [OF F0 f0(2,3) F1 f1(2,3) _ Fw [unfolded F_def]] u
    unfolding u_def F_def by auto
  then have "\<bar>ln mm - ln F\<bar> \<le> 20 * u" by simp
  then obtain v where v: "binary64 mm = Some v" "0 < v" "\<bar>ln v - ln F\<bar> \<le> 20 * u + u"
    using binary64_close [OF Fp mm(2) _ _ Fw, of "20 * u"] u unfolding u_def by auto
  have "dnda_grasil binary64 a c t ac (- al) (- b) = Some v"
    by (simp add: dnda_grasil_def g0 g1 g2 mm(1) [unfolded fmul_def] fmul_def v(1))
  then have "dnda_gra_mwy binary64 a = Some v"
    using a(1) c(1) t(1) ac al(1) b(1)
    by (simp add: dnda_gra_mwy_def A_def C'_def AT_def AL_def BE_def)
  moreover have "\<bar>ln v - ln F\<bar> \<le> 21 / 2 ^ 52" using v(3) by (simp add: u_def)
  ultimately show ?thesis using a(1) v(2) unfolding F_def P_def by blast
qed

lemma gra_mwy_exact_value:
  assumes "0 < A" "0 < AT" "0 < AC" "A < AT" "0 \<le> BE"
  shows "dnda_grasil exact A C' AT AC (- AL) (- BE)
    = Some (C' / A * (A / AT) powr (- AL) * (1 / (1 - (- BE) * A / AT)))"
proof -
  have "- BE \<le> 0" using assms(5) by simp
  then have f1: "grasil_f1 exact A AT (- BE) = Some (1 / (1 - (- BE) * A / AT))"
    by (rule grasil_f1_exact_nonpos [OF assms(1,2)])
  have f2: "grasil_f2 exact A AT AC = Some 1"
    using grasil_f2_exact [OF assms(3), of A AT] assms(4) by simp
  show ?thesis
    using dnda_grasil_exact [OF grasil_f0_exact [OF assms(1,2)] f1 f2] by simp
qed

text \<open>
  Claim C7. \<open>dnda_grasil\<close> with the Milky Way graphite parameters, evaluated in binary64
  at the double of \<open>a = 0.01e-6\<close>, returns a double that has a relative distance of at
  most \<open>1e-9\<close> from the reference value, the value of the formula
  \<open>C/a * (a/a_t)^alpha * 1/(1 - beta*a/a_t)\<close> at the decimal parameters and radius.
\<close>

theorem dnda_gra_mwy_reference:
  "\<exists>a v ref. binary64 (1 / 10 ^ 8) = Some a \<and> dnda_gra_mwy binary64 a = Some v
     \<and> dnda_gra_mwy exact (1 / 10 ^ 8) = Some ref
     \<and> ref = 999 / 10 ^ 14 / (1 / 10 ^ 8) * ((1 / 10 ^ 8) / (107 / 10 ^ 10)) powr (- (154 / 100))
           * (1 / (1 - (- (165 / 1000)) * (1 / 10 ^ 8) / (107 / 10 ^ 10)))
     \<and> 0 < ref \<and> \<bar>v - ref\<bar> \<le> ref / 10 ^ 9"
proof -
  define A :: real where "A = 1 / 10 ^ 8"
  define C' :: real where "C' = 999 / 10 ^ 14"
  define AT :: real where "AT = 107 / 10 ^ 10"
  define AL :: real where "AL = 154 / 100"
  define BE :: real where "BE = 165 / 1000"
  define ref where "ref = C' / A * (A / AT) powr (- AL) * (1 / (1 - (- BE) * A / AT))"
  have h: "0 < A" "0 < AT" "(0::real) < 428 / 10 ^ 9" "A < AT" "0 \<le> BE"
    by (simp_all add: A_def AT_def BE_def)
  have e: "dnda_gra_mwy exact A = Some ref"
    unfolding ref_def A_def C'_def AT_def AL_def BE_def tables_exact(1)
    by (rule gra_mwy_exact_value [OF h [unfolded A_def AT_def BE_def]])
  have "1 - (- BE) * A / AT = 1 + BE * A / AT" by simp
  then have r: "ref = C' / A * (A / AT) powr (- AL) * (1 / (1 + BE * A / AT))"
    by (simp only: ref_def)
  obtain a v where b: "binary64 A = Some a" "dnda_gra_mwy binary64 a = Some v" "0 < v"
      "\<bar>ln v - ln ref\<bar> \<le> 21 / 2 ^ 52"
    using gra_mwy_binary64 unfolding r A_def C'_def AT_def AL_def BE_def by blast
  have "0 < 1 + BE * A / AT" using h by (simp add: add_pos_nonneg)
  then have "0 < 1 / (1 + BE * A / AT)" by simp
  moreover have "0 < C' / A * (A / AT) powr (- AL)" using h by (simp add: C'_def)
  ultimately have p: "0 < ref" unfolding r by (rule mult_pos_pos [rotated])
  have "\<bar>v - ref\<bar> \<le> 2 * (21 / 2 ^ 52) * ref"
    by (rule close_abs [OF p b(3,4)]) simp
  also have "\<dots> \<le> 1 / 10 ^ 9 * ref"
    using p by (intro mult_right_mono) simp_all
  finally have "\<bar>v - ref\<bar> \<le> ref / 10 ^ 9" by simp
  then show ?thesis
    using b(1,2) e p unfolding ref_def A_def C'_def AT_def AL_def BE_def by blast
qed

section \<open>The PAH normalisation in binary64\<close>

lemma binary64_zero: "binary64 0 = Some 0"
  by (rule binary64_underflow) simp_all

lemma binary64_nonneg_bounds:
  assumes "- 1022 \<le> m" "m \<le> 1023" "0 \<le> x" "x \<le> 2 powi m"
  shows "\<exists>v. binary64 x = Some v \<and> 0 \<le> v \<and> v \<le> 2 powi m"
proof -
  have "\<bar>x\<bar> \<le> 2 powi m" using assms(3,4) by simp
  then have "binary64 x = Some (round64 x)"
    using below_threshold64 [OF assms(2)] by (simp add: binary64_def)
  then show ?thesis
    using round64_nonneg [OF assms(3)] round64_upper [OF assms(3,4,1)] by simp
qed

lemma b64_div_nonneg:
  assumes "0 \<le> x" "x \<le> 2 powi m1" "2 powi k2 \<le> y"
    and "- 1022 \<le> m1 - k2" "m1 - k2 \<le> 1023"
  shows "\<exists>v. fdiv binary64 x y = Some v \<and> 0 \<le> v \<and> v \<le> 2 powi (m1 - k2)"
proof -
  have y: "0 < y" using assms(3) by (rule less_le_trans [rotated]) simp
  have "x / y \<le> 2 powi m1 / 2 powi k2"
    using assms(1,2,3) y by (intro frac_le) simp_all
  then have hi: "x / y \<le> 2 powi (m1 - k2)" by (simp add: power_int_diff)
  have lo: "0 \<le> x / y" using assms(1) y by simp
  have "y \<noteq> 0" using y by simp
  then show ?thesis
    unfolding fdiv_def using binary64_nonneg_bounds [OF assms(4,5) lo hi] by simp
qed

lemma exp_1_ge: "5 / 2 \<le> exp (1::real)"
  using exp_lower_Taylor_quadratic [of "1::real"] by simp

lemma b64_exp_underflow_1024:
  assumes "2 powi 10 \<le> c"
  shows "fexp binary64 (- c) = Some 0"
proof -
  have "(2::real) ^ 5 \<le> (5 / 2) ^ 4" by (simp add: power_divide)
  also have "\<dots> \<le> exp 1 ^ 4" using exp_1_ge by (rule power_mono) simp
  finally have "((2::real) ^ 5) ^ 256 \<le> (exp 1 ^ 4) ^ 256" by (rule power_mono) simp
  then have "(2::real) ^ 1280 \<le> exp 1 ^ 1024" by (simp only: power_mult [symmetric]) simp
  also have "exp 1 ^ 1024 = exp (1024::real)"
    using exp_of_nat_mult [of 1024 "1::real"] by simp
  also have "\<dots> \<le> exp c" using assms by simp
  finally have "inverse (exp c) \<le> inverse (2 ^ 1280)"
    by (intro le_imp_inverse_le) simp_all
  then have "exp (- c) \<le> 2 powi (- 1280)"
    by (simp only: exp_minus power_int_minus power_int_numeral)
  also have "(2::real) powi (- 1280) < 2 powi (- 1075)"
    by (rule power_int_strict_increasing) simp_all
  finally show ?thesis
    unfolding fexp_def by (intro binary64_underflow) simp_all
qed

lemma erf_quarter: "1 / 8 \<le> erf (1 / 4)"
proof -
  have "\<exists>z::real. 0 < z \<and> z < 1 / 4
      \<and> erf (1 / 4) - erf 0 = (1 / 4 - 0) * (2 / sqrt pi * exp (- (z * z)))"
  proof (rule MVT2)
    show "(0::real) < 1 / 4" by simp
  next
    fix x :: real
    show "(erf has_real_derivative 2 / sqrt pi * exp (- (x * x))) (at x)"
      by (rule erf_deriv)
  qed
  then obtain z where z: "0 < z" "z < 1 / 4"
      "erf (1 / 4) = 1 / 4 * (2 / sqrt pi * exp (- (z * z)))"
    by (auto simp: erf_0)
  have "z * z \<le> 1 / 4 * (1 / 4)" using z by (intro mult_mono) simp_all
  then have "1 / 2 \<le> 1 + - (z * z)" by simp
  also have "\<dots> \<le> exp (- (z * z))" by (rule exp_ge_add_one_self)
  finally have e: "1 / 2 \<le> exp (- (z * z))" .
  have "sqrt pi \<le> sqrt 4" using pi_less_4 by (simp only: real_sqrt_le_iff)
  then have "sqrt pi \<le> 2" by simp
  then have p: "1 \<le> 2 / sqrt pi" by (simp add: pos_le_divide_eq)
  have "1 * (1 / 2) \<le> 2 / sqrt pi * exp (- (z * z))"
    using p e by (rule mult_mono) simp_all
  then show ?thesis unfolding z(3) by simp
qed

text \<open>
  The denominator \<open>1 + erf(erffac)\<close> for an argument of at least \<open>1/4\<close>: a double above 1.
\<close>

lemma pah_den_binary64:
  assumes "2 powi (- 2) \<le> x"
  shows "\<exists>er den. ferf binary64 x = Some er \<and> fadd binary64 1 er = Some den
    \<and> 1 < den \<and> 2 powi 0 \<le> den \<and> den \<le> 2 powi 1"
proof -
  have "(1 / 4 :: real) \<le> x" using assms by simp
  then have "1 / 4 < x \<or> x = 1 / 4" by linarith
  then have "erf (1 / 4) \<le> erf x"
    using erf_strict_mono [of "1 / 4" x] by (auto simp only: less_imp_le order_refl)
  then have "1 / 8 \<le> erf x" using erf_quarter by linarith
  then have lo: "2 powi (- 3) \<le> erf x" by simp
  have hi: "erf x \<le> 2 powi 0" using erf_bounds(2) [of x] by simp
  obtain er where er: "binary64 (erf x) = Some er" "2 powi (- 3) \<le> er" "er \<le> 2 powi 0"
    using binary64_bounds [OF _ _ lo hi] by auto
  have e8: "1 / 8 \<le> er" "er \<le> 1" using er(2,3) by simp_all
  then have s: "(2::real) powi 0 \<le> 1 + er" "1 + er \<le> 2 powi 1" by simp_all
  obtain den where den: "binary64 (1 + er) = Some den" "2 powi 0 \<le> den" "den \<le> 2 powi 1"
    using binary64_bounds [OF _ _ s] by auto
  have "(2::real) powi (- 1022) \<le> 2 powi 0" by (rule power_int_increasing) simp_all
  then have "2 powi (- 1022) \<le> 1 + er" using s(1) by linarith
  then have "\<bar>round64 (1 + er) - (1 + er)\<bar> \<le> (1 + er) / 2 ^ 53" by (rule round64_error)
  moreover have "den = round64 (1 + er)" using binary64_Some [OF den(1)] by simp
  moreover have "(1 + er) / 2 ^ 53 \<le> 1 / 16" using e8 by simp
  ultimately have "1 < den" using e8 by linarith
  then show ?thesis
    using er(1) den by (auto simp: ferf_def fadd_def)
qed

text \<open>
  The argument of the error function, for \<open>sigma\<close> between \<open>1/4\<close> and 16 and a centre
  between the double of \<open>3.5e-10\<close> and \<open>2^-28\<close>.
\<close>

lemma pah_erffac_binary64:
  assumes s: "2 powi (- 2) \<le> sigma" "sigma \<le> 2 powi 4"
    and amin: "binary64 (35 / 10 ^ 11) = Some amin"
    and a0: "amin \<le> a0i" "a0i \<le> 2 powi (- 28)"
  shows "\<exists>x. pah_erffac binary64 sigma a0i = Some x \<and> 2 powi (- 2) \<le> x \<and> x \<le> 2 powi 7"
proof -
  have am: "2 powi (- 32) \<le> amin" "amin \<le> 2 powi (- 31)"
    using binary64_bounds [of "- 32" "- 31" "35 / 10 ^ 11"] amin by auto
  have ap: "0 < amin" using am(1) by (rule less_le_trans [rotated]) simp
  have three: "(2::real) powi 1 \<le> 3" "(3::real) \<le> 2 powi 2" by simp_all
  obtain m3 where m3: "fmul binary64 3 sigma = Some m3" "2 powi (1 + - 2) \<le> m3"
      "m3 \<le> 2 powi (2 + 4)"
    using b64_mul [OF three s] by auto
  have "(1::real) \<le> sqrt 2" "sqrt 2 \<le> (2::real)"
    using real_sqrt_le_mono [of 1 2] real_sqrt_le_mono [of 2 4] by simp_all
  then have "(2::real) powi 0 \<le> sqrt 2" "sqrt 2 \<le> 2 powi 1" by simp_all
  then obtain s2 where s2': "binary64 (sqrt 2) = Some s2" and s2: "2 powi 0 \<le> s2" "s2 \<le> 2 powi 1"
    using binary64_bounds [of 0 1 "sqrt 2"] by auto
  have sq: "fsqrt binary64 2 = Some s2" using s2' by (simp add: fsqrt_def)
  obtain x1 where x1: "fdiv binary64 m3 s2 = Some x1" "2 powi (1 + - 2 - 1) \<le> x1"
      "x1 \<le> 2 powi (2 + 4 - 0)"
    using b64_div [OF m3(2,3) s2] by auto
  have "1 \<le> a0i / amin" using a0(1) ap by simp
  moreover have "a0i / amin \<le> 2 powi (- 28) / 2 powi (- 32)"
    using a0 am ap by (intro frac_le) simp_all
  ultimately have "2 powi 0 \<le> a0i / amin" "a0i / amin \<le> 2 powi 4" by simp_all
  then obtain q where q': "binary64 (a0i / amin) = Some q" and q: "2 powi 0 \<le> q" "q \<le> 2 powi 4"
    using binary64_bounds [of 0 4 "a0i / amin"] by auto
  have fq: "fdiv binary64 a0i amin = Some q" using q' ap by (simp add: fdiv_def)
  have q1: "1 \<le> q" "0 < q" using q(1) by simp_all
  have "ln q \<le> q - 1" by (rule ln_le_minus_one [OF q1(2)])
  then have "0 \<le> ln q" "ln q \<le> 2 powi 4" using q1 q(2) by simp_all
  then obtain l where l': "binary64 (ln q) = Some l" and l: "0 \<le> l" "l \<le> 2 powi 4"
    using binary64_nonneg_bounds [of 4 "ln q"] by auto
  have fl: "flog binary64 q = Some l" using l' q1(2) by (simp add: flog_def)
  obtain x2 where x2: "fdiv binary64 l s2 = Some x2" "0 \<le> x2" "x2 \<le> 2 powi (4 - 0)"
    using b64_div_nonneg [OF l s2(1)] by auto
  obtain x3 where x3: "fdiv binary64 x2 sigma = Some x3" "0 \<le> x3" "x3 \<le> 2 powi (4 - 0 - - 2)"
    using b64_div_nonneg [OF x2(2,3) s(1)] by auto
  have "2 powi (- 2) \<le> x1 + x3" "x1 + x3 \<le> 2 powi 7" using x1(2,3) x3(2,3) by simp_all
  then obtain x where x: "binary64 (x1 + x3) = Some x" "2 powi (- 2) \<le> x" "x \<le> 2 powi 7"
    using binary64_bounds [of "- 2" 7 "x1 + x3"] by auto
  have "pah_erffac binary64 sigma a0i = Some x"
    by (simp only: pah_erffac_def amin m3(1) sq x1(1) fq fl x2(1) x3(1) fadd_def x(1)
        Option.bind.bind_lunit)
  then show ?thesis using x(2,3) by blast
qed

text \<open>
  The factors \<open>t0\<close>, \<open>t2\<close> and \<open>t3\<close> of \<open>B[i]\<close>, for \<open>sigma\<close> between \<open>1/4\<close> and 16, a centre
  between the double of \<open>3.5e-10\<close> and \<open>2^-28\<close> and an abundance between \<open>2^-19\<close> and
  \<open>2^-14\<close>; what is left of \<open>pah_B\<close> is the factor \<open>t1 = exp(-4.5*sigma*sigma)\<close> and the
  three products.
\<close>

lemma pah_B_binary64_parts:
  assumes s: "2 powi (- 2) \<le> sigma" "sigma \<le> 2 powi 4"
    and amin: "binary64 (35 / 10 ^ 11) = Some amin"
    and a0: "amin \<le> a0i" "a0i \<le> 2 powi (- 28)"
    and bc: "2 powi (- 19) \<le> bci" "bci \<le> 2 powi (- 14)"
  shows "\<exists>t0 t2 t3 x er den. 2 powi (- 5) \<le> t0 \<and> t0 \<le> 2 powi 0
     \<and> 2 powi 68 \<le> t2 \<and> t2 \<le> 2 powi 87 \<and> 2 powi (- 106) \<le> t3 \<and> t3 \<le> 2 powi (- 99)
     \<and> pah_erffac binary64 sigma a0i = Some x \<and> 0 < x \<and> ferf binary64 x = Some er
     \<and> fadd binary64 1 er = Some den \<and> 1 < den
     \<and> pah_B binary64 sigma a0i bci = do {
          e1 \<leftarrow> fmul binary64 (- (9 / 2)) sigma;
          e2 \<leftarrow> fmul binary64 e1 sigma;
          t1 \<leftarrow> fexp binary64 e2;
          t01 \<leftarrow> fmul binary64 t0 t1;
          t012 \<leftarrow> fmul binary64 t01 t2;
          fmul binary64 t012 t3
        }"
proof -
  have am: "2 powi (- 32) \<le> amin" "amin \<le> 2 powi (- 31)"
    using binary64_bounds [of "- 32" "- 31" "35 / 10 ^ 11"] amin by auto
  have a0l: "2 powi (- 32) \<le> a0i" using am(1) a0(1) by (rule order_trans)
  have a0p: "0 < a0i" using a0l by (rule less_le_trans [rotated]) simp
  obtain mC where mC: "binary64 (19944 / 10 ^ 30) = Some mC" "2 powi (- 86) \<le> mC"
      "mC \<le> 2 powi (- 85)"
    using binary64_bounds [of "- 86" "- 85" "19944 / 10 ^ 30"] by auto
  obtain rho where rho: "binary64 2240 = Some rho" "2 powi 11 \<le> rho" "rho \<le> 2 powi 12"
    using binary64_bounds [of 11 12 2240] by auto
  have "2 powi 1 \<le> pi" "pi \<le> 2 powi 2" using pi_ge_two pi_less_4 by simp_all
  then obtain M_PI where M_PI: "binary64 pi = Some M_PI" "2 powi 1 \<le> M_PI" "M_PI \<le> 2 powi 2"
    using binary64_bounds [of 1 2 pi] by auto
  have two: "(2::real) powi 1 \<le> 2" "(2::real) \<le> 2 powi 1" by simp_all
  obtain tp where tp: "fmul binary64 2 M_PI = Some tp" "2 powi (1 + 1) \<le> tp" "tp \<le> 2 powi (1 + 2)"
    using b64_mul [OF two M_PI(2,3)] by auto
  have tpb: "4 \<le> tp" "tp \<le> 8" using tp(2,3) by simp_all
  have "tp powr 1 \<le> tp powr (3 / 2)" using tpb by (intro powr_mono) simp_all
  then have pl: "2 powi 2 \<le> tp powr (3 / 2)" using tpb by simp
  have "tp powr (3 / 2) \<le> tp powr 2" using tpb by (intro powr_mono) simp_all
  also have "\<dots> = tp * tp" using tpb by (simp add: power2_eq_square)
  also have "\<dots> \<le> 8 * 8" using tpb by (intro mult_mono) simp_all
  finally have pu: "tp powr (3 / 2) \<le> 2 powi 6" by simp
  obtain pw where pw': "binary64 (tp powr (3 / 2)) = Some pw" and pw: "2 powi 2 \<le> pw" "pw \<le> 2 powi 6"
    using binary64_bounds [OF _ _ pl pu] by auto
  have fpw: "fpow binary64 tp (3 / 2) = Some pw" using pw' tpb by (simp add: fpow_def pow_real_def)
  have three: "(2::real) powi 1 \<le> 3" "(3::real) \<le> 2 powi 2" by simp_all
  obtain t0 where t0: "fdiv binary64 3 pw = Some t0" "2 powi (1 - 6) \<le> t0" "t0 \<le> 2 powi (2 - 2)"
    using b64_div [OF three pw] by auto
  have one: "(2::real) powi 0 \<le> 1" "(1::real) \<le> 2 powi 0" by simp_all
  obtain d1 where d1: "fdiv binary64 1 rho = Some d1" "2 powi (0 - 12) \<le> d1" "d1 \<le> 2 powi (0 - 11)"
    using b64_div [OF one rho(2,3)] by auto
  have e: "((2::real) powi (- 32)) ^ 3 = 2 powi (- 96)" "((2::real) powi (- 28)) ^ 3 = 2 powi (- 84)"
    by (simp_all only: power_int_power') simp_all
  have pw3: "a0i powr 3 = a0i ^ 3" using a0p by simp
  have "(2 powi (- 32)) ^ 3 \<le> a0i ^ 3" using a0l by (rule power_mono) simp
  then have p3l: "2 powi (- 96) \<le> a0i powr 3" by (simp only: e pw3)
  have "0 \<le> a0i" using a0p by simp
  with a0(2) have "a0i ^ 3 \<le> (2 powi (- 28)) ^ 3" by (rule power_mono)
  then have p3u: "a0i powr 3 \<le> 2 powi (- 84)" by (simp only: e pw3)
  note p3b = p3l p3u
  obtain p3 where p3': "binary64 (a0i powr 3) = Some p3" and p3: "2 powi (- 96) \<le> p3"
      "p3 \<le> 2 powi (- 84)"
    using binary64_bounds [OF _ _ p3b] by auto
  have fp3: "fpow binary64 a0i 3 = Some p3" using p3' a0p by (simp add: fpow_def pow_real_def)
  obtain d2 where d2: "fdiv binary64 d1 p3 = Some d2" "2 powi (0 - 12 - - 84) \<le> d2"
      "d2 \<le> 2 powi (0 - 11 - - 96)"
    using b64_div [OF d1(2,3) p3] by auto
  obtain t2 where t2: "fdiv binary64 d2 sigma = Some t2" "2 powi (0 - 12 - - 84 - 4) \<le> t2"
      "t2 \<le> 2 powi (0 - 11 - - 96 - - 2)"
    using b64_div [OF d2(2,3) s] by auto
  obtain x where x: "pah_erffac binary64 sigma a0i = Some x" "2 powi (- 2) \<le> x"
    using pah_erffac_binary64 [OF s amin a0] by auto
  have xp: "0 < x" using x(2) by (rule less_le_trans [rotated]) simp
  obtain er den where den: "ferf binary64 x = Some er" "fadd binary64 1 er = Some den"
      "1 < den" "2 powi 0 \<le> den" "den \<le> 2 powi 1"
    using pah_den_binary64 [OF x(2)] by auto
  obtain n where n: "fmul binary64 bci mC = Some n" "2 powi (- 19 + - 86) \<le> n"
      "n \<le> 2 powi (- 14 + - 85)"
    using b64_mul [OF bc mC(2,3)] by auto
  obtain t3 where t3: "fdiv binary64 n den = Some t3" "2 powi (- 19 + - 86 - 1) \<le> t3"
      "t3 \<le> 2 powi (- 14 + - 85 - 0)"
    using b64_div [OF n(2,3) den(4,5)] by auto
  have "pah_B binary64 sigma a0i bci = do {
          e1 \<leftarrow> fmul binary64 (- (9 / 2)) sigma;
          e2 \<leftarrow> fmul binary64 e1 sigma;
          t1 \<leftarrow> fexp binary64 e2;
          t01 \<leftarrow> fmul binary64 t0 t1;
          t012 \<leftarrow> fmul binary64 t01 t2;
          fmul binary64 t012 t3
        }"
    by (simp only: pah_B_def mC(1) rho(1) M_PI(1) tp(1) fpw t0(1) d1(1) fp3 d2(1) t2(1) x(1)
        n(1) den(1,2) t3(1) Option.bind.bind_lunit)
  moreover have "2 powi (- 5) \<le> t0" "t0 \<le> 2 powi 0" "2 powi 68 \<le> t2" "t2 \<le> 2 powi 87"
    "2 powi (- 106) \<le> t3" "t3 \<le> 2 powi (- 99)"
    using t0(2,3) t2(2,3) t3(2,3) by simp_all
  ultimately show ?thesis using x(1) xp den(1,2,3) by blast
qed

text \<open>
  For \<open>sigma\<close> between \<open>1/4\<close> and 4 the exponential is at least \<open>2^-256\<close>, and \<open>B[i]\<close> is a
  positive double.
\<close>

lemma pah_B_binary64_pos:
  assumes s: "2 powi (- 2) \<le> sigma" "sigma \<le> 2 powi 2"
    and amin: "binary64 (35 / 10 ^ 11) = Some amin"
    and a0: "amin \<le> a0i" "a0i \<le> 2 powi (- 28)"
    and bc: "2 powi (- 19) \<le> bci" "bci \<le> 2 powi (- 14)"
  shows "\<exists>x er den B. pah_erffac binary64 sigma a0i = Some x \<and> 0 < x
     \<and> ferf binary64 x = Some er \<and> fadd binary64 1 er = Some den \<and> 1 < den
     \<and> pah_B binary64 sigma a0i bci = Some B \<and> 0 < B"
proof -
  have "(2::real) powi 2 \<le> 2 powi 4" by (rule power_int_increasing) simp_all
  then have s4: "sigma \<le> 2 powi 4" using s(2) by simp
  obtain t0 t2 t3 x er den where t0: "2 powi (- 5) \<le> t0" "t0 \<le> 2 powi 0"
    and t2: "2 powi 68 \<le> t2" "t2 \<le> 2 powi 87"
    and t3: "2 powi (- 106) \<le> t3" "t3 \<le> 2 powi (- 99)"
    and x: "pah_erffac binary64 sigma a0i = Some x" "0 < x" "ferf binary64 x = Some er"
      "fadd binary64 1 er = Some den" "1 < den"
    and B: "pah_B binary64 sigma a0i bci = do {
          e1 \<leftarrow> fmul binary64 (- (9 / 2)) sigma;
          e2 \<leftarrow> fmul binary64 e1 sigma;
          t1 \<leftarrow> fexp binary64 e2;
          t01 \<leftarrow> fmul binary64 t0 t1;
          t012 \<leftarrow> fmul binary64 t01 t2;
          fmul binary64 t012 t3
        }"
    using pah_B_binary64_parts [OF s(1) s4 amin a0 bc] by blast
  have c: "(2::real) powi 2 \<le> 9 / 2" "(9 / 2 :: real) \<le> 2 powi 3" by simp_all
  obtain e1 where e1: "fmul binary64 (9 / 2) sigma = Some e1" "2 powi (2 + - 2) \<le> e1"
      "e1 \<le> 2 powi (3 + 2)"
    using b64_mul [OF c s] by auto
  obtain e2 where e2: "fmul binary64 e1 sigma = Some e2" "2 powi (2 + - 2 + - 2) \<le> e2"
      "e2 \<le> 2 powi (3 + 2 + 2)"
    using b64_mul [OF e1(2,3) s] by auto
  have n1: "fmul binary64 (- (9 / 2)) sigma = Some (- e1)"
    by (simp only: fmul_binary64_neg e1(1) option.map)
  have n2: "fmul binary64 (- e1) sigma = Some (- e2)"
    by (simp only: fmul_binary64_neg e2(1) option.map)
  have e2b: "0 \<le> e2" "e2 \<le> 128" using e2(2,3) by simp_all
  have "exp e2 \<le> exp 128" using e2b by simp
  also have "exp (128::real) = exp 1 ^ 128" using exp_of_nat_mult [of 128 "1::real"] by simp
  also have "\<dots> \<le> 4 ^ 128" using exp_1_le_4 by (rule power_mono) simp
  also have "(4::real) ^ 128 = 2 ^ 256" by simp
  finally have "inverse (2 ^ 256) \<le> inverse (exp e2)"
    by (intro le_imp_inverse_le) simp_all
  then have el: "2 powi (- 256) \<le> exp (- e2)"
    by (simp only: exp_minus power_int_minus power_int_numeral)
  have eu: "exp (- e2) \<le> 2 powi 0" using e2b by simp
  obtain t1 where t1': "binary64 (exp (- e2)) = Some t1" and t1: "2 powi (- 256) \<le> t1"
      "t1 \<le> 2 powi 0"
    using binary64_bounds [OF _ _ el eu] by auto
  have ft1: "fexp binary64 (- e2) = Some t1" using t1' by (simp add: fexp_def)
  obtain t01 where t01: "fmul binary64 t0 t1 = Some t01" "2 powi (- 5 + - 256) \<le> t01"
      "t01 \<le> 2 powi (0 + 0)"
    using b64_mul [OF t0 t1] by auto
  obtain t012 where t012: "fmul binary64 t01 t2 = Some t012" "2 powi (- 5 + - 256 + 68) \<le> t012"
      "t012 \<le> 2 powi (0 + 0 + 87)"
    using b64_mul [OF t01(2,3) t2] by auto
  obtain Bv where Bv: "fmul binary64 t012 t3 = Some Bv" "2 powi (- 5 + - 256 + 68 + - 106) \<le> Bv"
    using b64_mul [OF t012(2,3) t3] by auto
  have "pah_B binary64 sigma a0i bci = Some Bv"
    by (simp only: B n1 n2 ft1 t01(1) t012(1) Bv(1) Option.bind.bind_lunit)
  moreover have "0 < Bv" using Bv(2) by (rule less_le_trans [rotated]) simp
  ultimately show ?thesis using x by blast
qed

text \<open>
  At \<open>sigma = 16\<close> the argument of the exponential is below \<open>-1024\<close>, the exponential
  underflows, and \<open>B[i]\<close> is the double 0.
\<close>

lemma pah_B_binary64_zero:
  assumes amin: "binary64 (35 / 10 ^ 11) = Some amin"
    and a0: "amin \<le> a0i" "a0i \<le> 2 powi (- 28)"
    and bc: "2 powi (- 19) \<le> bci" "bci \<le> 2 powi (- 14)"
  shows "pah_B binary64 16 a0i bci = Some 0"
proof -
  have s: "(2::real) powi 4 \<le> 16" "(16::real) \<le> 2 powi 4" by simp_all
  have "(2::real) powi (- 2) \<le> 2 powi 4" by (rule power_int_increasing) simp_all
  then have s2: "(2::real) powi (- 2) \<le> 16" using s(1) by (rule order_trans)
  obtain t0 t2 t3 where B: "pah_B binary64 16 a0i bci = do {
          e1 \<leftarrow> fmul binary64 (- (9 / 2)) 16;
          e2 \<leftarrow> fmul binary64 e1 16;
          t1 \<leftarrow> fexp binary64 e2;
          t01 \<leftarrow> fmul binary64 t0 t1;
          t012 \<leftarrow> fmul binary64 t01 t2;
          fmul binary64 t012 t3
        }"
    using pah_B_binary64_parts [OF s2 s(2) amin a0 bc] by blast
  have c: "(2::real) powi 2 \<le> 9 / 2" "(9 / 2 :: real) \<le> 2 powi 3" by simp_all
  obtain e1 where e1: "fmul binary64 (9 / 2) 16 = Some e1" "2 powi (2 + 4) \<le> e1"
      "e1 \<le> 2 powi (3 + 4)"
    using b64_mul [OF c s] by auto
  obtain e2 where e2: "fmul binary64 e1 16 = Some e2" "2 powi (2 + 4 + 4) \<le> e2"
    using b64_mul [OF e1(2,3) s] by auto
  have n1: "fmul binary64 (- (9 / 2)) 16 = Some (- e1)"
    by (simp only: fmul_binary64_neg e1(1) option.map)
  have n2: "fmul binary64 (- e1) 16 = Some (- e2)"
    by (simp only: fmul_binary64_neg e2(1) option.map)
  have "2 powi 10 \<le> e2" using e2(2) by simp
  then have ft1: "fexp binary64 (- e2) = Some 0" by (rule b64_exp_underflow_1024)
  have z: "fmul binary64 t0 0 = Some 0" "fmul binary64 0 t2 = Some 0" "fmul binary64 0 t3 = Some 0"
    by (simp_all add: fmul_def binary64_zero)
  show ?thesis
    by (simp only: B n1 n2 ft1 z Option.bind.bind_lunit)
qed

text \<open>
  Claim C10, as amended. In exact arithmetic, for every \<open>sigma > 0\<close> and every centre
  \<open>a0[i] \<ge> 3.5e-10\<close>, the argument of the error function is strictly positive, so the
  denominator \<open>1 + erf(...)\<close> is strictly greater than 1; the normalisation \<open>B[i]\<close> is
  computed without a division by zero, it is finite, and it is strictly positive exactly
  when the abundance \<open>bc[i]\<close> is. In binary64, for \<open>sigma\<close> between \<open>1/4\<close> and 4, a centre
  between the double of \<open>3.5e-10\<close> and \<open>2^-28\<close> and an abundance between \<open>2^-19\<close> and
  \<open>2^-14\<close> (the four literal tables lie in these ranges), the argument of the error
  function is a positive double, the denominator is a double above 1, and \<open>B[i]\<close> is a
  finite and strictly positive double.
\<close>

theorem pah_normalisation_safe:
  assumes "0 < sigma" "35 / 10 ^ 11 \<le> a0i"
  shows "pah_erffac exact sigma a0i = Some (erffac_spec sigma a0i)
    \<and> 0 < erffac_spec sigma a0i
    \<and> 1 < 1 + erf (erffac_spec sigma a0i)
    \<and> pah_B exact sigma a0i bci = Some (B_spec sigma a0i bci)
    \<and> (0 < B_spec sigma a0i bci) = (0 < bci)
    \<and> (\<forall>s c b amin. 2 powi (- 2) \<le> s \<longrightarrow> s \<le> 2 powi 2
          \<longrightarrow> binary64 (35 / 10 ^ 11) = Some amin \<longrightarrow> amin \<le> c \<longrightarrow> c \<le> 2 powi (- 28)
          \<longrightarrow> 2 powi (- 19) \<le> b \<longrightarrow> b \<le> 2 powi (- 14)
          \<longrightarrow> (\<exists>x er den B. pah_erffac binary64 s c = Some x \<and> 0 < x
                \<and> ferf binary64 x = Some er \<and> fadd binary64 1 er = Some den \<and> 1 < den
                \<and> pah_B binary64 s c b = Some B \<and> 0 < B))"
proof -
  have a0: "0 < a0i" using assms(2) by (rule less_le_trans [rotated]) simp
  have den: "1 < 1 + erf (erffac_spec sigma a0i)" by (rule pah_denominator [OF assms])
  have "pah_B exact sigma a0i bci = Some (B_spec sigma a0i bci)"
    by (rule pah_B_exact [OF assms(1) a0])
  then have "pah_erffac exact sigma a0i = Some (erffac_spec sigma a0i)
    \<and> 0 < erffac_spec sigma a0i
    \<and> 1 < 1 + erf (erffac_spec sigma a0i)
    \<and> pah_B exact sigma a0i bci = Some (B_spec sigma a0i bci)
    \<and> (0 < B_spec sigma a0i bci) = (0 < bci)"
    using pah_erffac_exact [OF assms(1) a0] erffac_spec_pos [OF assms] den B_spec_sign [OF assms]
    by simp
  then show ?thesis using pah_B_binary64_pos by blast
qed

text \<open>
  The theorem at the Milky Way table, \<open>sigma = 0.4\<close>: in exact arithmetic at the second
  mode, \<open>a0 = 30e-10\<close> and \<open>bc = 1.5e-5\<close>; in binary64 at both modes, each number the
  double of its literal.
\<close>

theorem pah_normalisation_safe_witness:
  "(0::real) < 4 / 10 \<and> (35 / 10 ^ 11 :: real) \<le> 30 / 10 ^ 10
    \<and> 0 < erffac_spec (4 / 10) (30 / 10 ^ 10)
    \<and> 1 < 1 + erf (erffac_spec (4 / 10) (30 / 10 ^ 10))
    \<and> pah_B exact (4 / 10) (30 / 10 ^ 10) (15 / 10 ^ 6)
        = Some (B_spec (4 / 10) (30 / 10 ^ 10) (15 / 10 ^ 6))
    \<and> 0 < B_spec (4 / 10) (30 / 10 ^ 10) (15 / 10 ^ 6)
    \<and> (\<exists>s a00 a01 bc0 bc1 B0 B1. binary64 (4 / 10) = Some s
          \<and> binary64 (35 / 10 ^ 11) = Some a00 \<and> binary64 (30 / 10 ^ 10) = Some a01
          \<and> binary64 (45 / 10 ^ 6) = Some bc0 \<and> binary64 (15 / 10 ^ 6) = Some bc1
          \<and> pah_B binary64 s a00 bc0 = Some B0 \<and> 0 < B0
          \<and> pah_B binary64 s a01 bc1 = Some B1 \<and> 0 < B1)"
proof -
  have h: "(0::real) < 4 / 10" "(35 / 10 ^ 11 :: real) \<le> 30 / 10 ^ 10"
    by simp_all
  note t = pah_normalisation_safe [OF h, of "15 / 10 ^ 6"]
  obtain s where s: "binary64 (4 / 10) = Some s" "2 powi (- 2) \<le> s" "s \<le> 2 powi (- 1)"
    using binary64_bounds [of "- 2" "- 1" "4 / 10"] by auto
  have "(2::real) powi (- 1) \<le> 2 powi 2" by (rule power_int_increasing) simp_all
  then have s2: "s \<le> 2 powi 2" using s(3) by simp
  obtain a00 where a00: "binary64 (35 / 10 ^ 11) = Some a00" "2 powi (- 32) \<le> a00"
      "a00 \<le> 2 powi (- 31)"
    using binary64_bounds [of "- 32" "- 31" "35 / 10 ^ 11"] by auto
  obtain a01 where a01: "binary64 (30 / 10 ^ 10) = Some a01" "2 powi (- 29) \<le> a01"
      "a01 \<le> 2 powi (- 28)"
    using binary64_bounds [of "- 29" "- 28" "30 / 10 ^ 10"] by auto
  obtain bc0 where bc0: "binary64 (45 / 10 ^ 6) = Some bc0" "2 powi (- 15) \<le> bc0"
      "bc0 \<le> 2 powi (- 14)"
    using binary64_bounds [of "- 15" "- 14" "45 / 10 ^ 6"] by auto
  obtain bc1 where bc1: "binary64 (15 / 10 ^ 6) = Some bc1" "2 powi (- 17) \<le> bc1"
      "bc1 \<le> 2 powi (- 16)"
    using binary64_bounds [of "- 17" "- 16" "15 / 10 ^ 6"] by auto
  have r: "a00 \<le> a00" "a00 \<le> 2 powi (- 28)" "a00 \<le> a01"
    "2 powi (- 19) \<le> bc0" "2 powi (- 19) \<le> bc1" "bc1 \<le> 2 powi (- 14)"
    using a00(2,3) a01(2) bc0(2) bc1(2,3) by simp_all
  obtain B0 where B0: "pah_B binary64 s a00 bc0 = Some B0" "0 < B0"
    using t s(2) s2 a00(1) r(1,2,4) bc0(3) by blast
  obtain B1 where B1: "pah_B binary64 s a01 bc1 = Some B1" "0 < B1"
    using t s(2) s2 a00(1) r(3) a01(3) r(5,6) by blast
  have "(0::real) < 15 / 10 ^ 6" by simp
  then have p: "0 < B_spec (4 / 10) (30 / 10 ^ 10) (15 / 10 ^ 6)" using t by blast
  have b: "\<exists>s a00 a01 bc0 bc1 B0 B1. binary64 (4 / 10) = Some s
          \<and> binary64 (35 / 10 ^ 11) = Some a00 \<and> binary64 (30 / 10 ^ 10) = Some a01
          \<and> binary64 (45 / 10 ^ 6) = Some bc0 \<and> binary64 (15 / 10 ^ 6) = Some bc1
          \<and> pah_B binary64 s a00 bc0 = Some B0 \<and> 0 < B0
          \<and> pah_B binary64 s a01 bc1 = Some B1 \<and> 0 < B1"
    using s(1) a00(1) a01(1) bc0(1) bc1(1) B0 B1 by blast
  show ?thesis
    using h t p b by blast
qed

text \<open>
  In binary64 the claim fails where the exponential underflows. At \<open>sigma = 16\<close>, with the
  centre and the abundance of the second mode of the Milky Way table, the premises hold
  and the exact \<open>B[i]\<close> is positive, but \<open>-4.5*sigma*sigma = -1152\<close>, \<open>exp(-1152)\<close> is below
  half the least positive double, \<open>t1 = 0\<close>, and the source computes \<open>B[i] = 0.0\<close>.
\<close>

theorem pah_normalisation_underflow_counterexample:
  "\<exists>a0 bc. binary64 (30 / 10 ^ 10) = Some a0 \<and> binary64 (15 / 10 ^ 6) = Some bc
     \<and> binary64 16 = Some 16 \<and> (0::real) < 16 \<and> 35 / 10 ^ 11 \<le> a0 \<and> 0 < bc
     \<and> pah_B exact 16 a0 bc = Some (B_spec 16 a0 bc) \<and> 0 < B_spec 16 a0 bc
     \<and> pah_B binary64 16 a0 bc = Some 0
     \<and> \<not> (\<exists>B. pah_B binary64 16 a0 bc = Some B \<and> 0 < B)"
proof -
  obtain amin where amin: "binary64 (35 / 10 ^ 11) = Some amin" "amin \<le> 2 powi (- 31)"
    using binary64_bounds [of "- 32" "- 31" "35 / 10 ^ 11"] by auto
  obtain a0 where a0: "binary64 (30 / 10 ^ 10) = Some a0" "2 powi (- 29) \<le> a0"
      "a0 \<le> 2 powi (- 28)"
    using binary64_bounds [of "- 29" "- 28" "30 / 10 ^ 10"] by auto
  obtain bc where bc: "binary64 (15 / 10 ^ 6) = Some bc" "2 powi (- 17) \<le> bc"
      "bc \<le> 2 powi (- 16)"
    using binary64_bounds [of "- 17" "- 16" "15 / 10 ^ 6"] by auto
  have s: "binary64 16 = Some 16"
    using binary64_bounds [of 4 4 16] by auto
  have r: "amin \<le> a0" "2 powi (- 19) \<le> bc" "bc \<le> 2 powi (- 14)" "35 / 10 ^ 11 \<le> a0"
    "0 < a0" "0 < bc"
    using amin(2) a0(2) bc(2,3) by simp_all
  have z: "pah_B binary64 16 a0 bc = Some 0"
    by (rule pah_B_binary64_zero [OF amin(1) r(1) a0(3) r(2,3)])
  have e: "pah_B exact 16 a0 bc = Some (B_spec 16 a0 bc)"
    by (rule pah_B_exact [OF _ r(5)]) simp
  have "(0 < B_spec 16 a0 bc) = (0 < bc)"
    by (rule B_spec_sign [OF _ r(4)]) simp
  then have p: "0 < B_spec 16 a0 bc" using r(6) by simp
  have "\<not> (\<exists>B. pah_B binary64 16 a0 bc = Some B \<and> 0 < B)" using z by simp
  moreover have "(0::real) < 16" by simp
  ultimately show ?thesis using a0(1) bc(1) s r(4,6) e p z by blast
qed

section \<open>The cutoff beyond the transition radius\<close>

lemma exp_27: "1000 * exp (- 27 :: real) < 1"
proof -
  have "(2::real) \<le> exp 1" using exp_ge_add_one_self [of 1] by simp
  then have "(2::real) ^ 27 \<le> exp 1 ^ 27" by (rule power_mono) simp
  also have "exp 1 ^ 27 = exp (27::real)"
    using exp_of_nat_mult [of 27 "1::real"] by simp
  finally have "(1000::real) < exp 27" by simp
  then have "1000 * exp (- 27 :: real) < exp 27 * exp (- 27)"
    by (intro mult_strict_right_mono) simp_all
  also have "\<dots> = 1" by (simp flip: exp_add)
  finally show ?thesis .
qed

lemma powr_ge1_nonpos: 
  assumes "1 \<le> (x::real)" "alpha \<le> 0"
  shows "x powr alpha \<le> 1" "0 < x powr alpha"
proof -
  have "0 \<le> ln x" using assms(1) by simp
  then have "alpha * ln x \<le> 0" using assms(2) by (simp add: mult_le_0_iff)
  then show "x powr alpha \<le> 1" using assms(1) by (simp add: powr_def)
  show "0 < x powr alpha" using assms(1) by simp
qed

lemma grasil_f2_tail:
  assumes "0 < (a_c::real)" "a_t + 3 * a_c \<le> a"
  shows "exp (- (((a - a_t) / a_c) ^ 3)) \<le> exp (- 27)"
proof -
  have "3 \<le> (a - a_t) / a_c" using assms by (simp add: pos_le_divide_eq)
  then have "3 ^ 3 \<le> ((a - a_t) / a_c) ^ 3" by (rule power_mono) simp
  then show ?thesis by simp
qed

text \<open>Beyond the transition radius \<open>f1 / a\<close> is at most its value there.\<close>

lemma grasil_f1_over_a:
  assumes "0 < (a_t::real)" "a_t \<le> a"
  shows "(if 0 < beta then 1 + beta * a / a_t else 1 / (1 - beta * a / a_t)) / a
       \<le> (if 0 < beta then 1 + beta else 1 / (1 - beta)) / a_t"
    and "0 < (if 0 < beta then 1 + beta else 1 / (1 - beta)) / a_t"
    and "0 < (if 0 < beta then 1 + beta * a / a_t else 1 / (1 - beta * a / a_t)) / a"
proof -
  have a: "0 < a" using assms by simp
  show "(if 0 < beta then 1 + beta * a / a_t else 1 / (1 - beta * a / a_t)) / a
       \<le> (if 0 < beta then 1 + beta else 1 / (1 - beta)) / a_t"
  proof (cases "0 < beta")
    case True
    have "(1 + beta * a / a_t) / a = 1 / a + beta / a_t"
      using a assms by (simp add: field_simps)
    also have "\<dots> \<le> 1 / a_t + beta / a_t"
      using assms a by (simp add: frac_le)
    also have "\<dots> = (1 + beta) / a_t" by (simp add: add_divide_distrib)
    finally show ?thesis using True by simp
  next
    case False
    then have b: "beta \<le> 0" by simp
    have "1 \<le> a / a_t" using assms by simp
    then have "- beta * 1 \<le> - beta * (a / a_t)" using b by (intro mult_left_mono) simp_all
    then have le: "1 - beta \<le> 1 - beta * a / a_t" by simp
    have p: "0 < 1 - beta" using b by simp
    have "a_t * (1 - beta) \<le> a * (1 - beta * a / a_t)"
      using assms le p by (intro mult_mono) simp_all
    moreover have "0 < a_t * (1 - beta)" using assms p by simp
    ultimately have "1 / (a * (1 - beta * a / a_t)) \<le> 1 / (a_t * (1 - beta))"
      by (intro divide_left_mono) (simp_all add: mult_pos_pos a)
    then show ?thesis using False by (simp add: mult.commute)
  qed
  show "0 < (if 0 < beta then 1 + beta else 1 / (1 - beta)) / a_t"
    using assms by (cases "0 < beta") simp_all
  show "0 < (if 0 < beta then 1 + beta * a / a_t else 1 / (1 - beta * a / a_t)) / a"
  proof (cases "0 < beta")
    case True
    then have "0 < 1 + beta * a / a_t" using a assms by (simp add: add_pos_nonneg)
    then show ?thesis using True a by simp
  next
    case False
    then have "1 \<le> 1 - beta * a / a_t" using grasil_f1_denom [OF a assms(1)] by simp
    then show ?thesis using False a by simp
  qed
qed

lemma dnda_grasil_at_transition:
  assumes "0 < a_t" "0 < a_c"
  shows "dnda_grasil exact a_t C a_t a_c alpha beta =
    Some (C * ((if 0 < beta then 1 + beta else 1 / (1 - beta)) / a_t))"
proof -
  have f0: "grasil_f0 exact a_t C a_t alpha = Some (C / a_t)"
    using assms by (simp add: grasil_f0_exact)
  have f2: "grasil_f2 exact a_t a_t a_c = Some 1"
    using assms by (simp add: grasil_f2_exact)
  show ?thesis
  proof (cases "0 < beta")
    case True
    then have "grasil_f1 exact a_t a_t beta = Some (1 + beta)"
      using assms by (simp add: grasil_f1_exact_pos)
    from dnda_grasil_exact [OF f0 this f2] show ?thesis using True by simp
  next
    case False
    then have "grasil_f1 exact a_t a_t beta = Some (1 / (1 - beta))"
      using assms by (simp add: grasil_f1_exact_nonpos)
    from dnda_grasil_exact [OF f0 this f2] show ?thesis using False by simp
  qed
qed

lemma dnda_grasil_beyond:
  assumes "0 < a_t" "0 < a_c" "a_t \<le> a"
  shows "dnda_grasil exact a C a_t a_c alpha beta =
    Some (C * ((if 0 < beta then 1 + beta * a / a_t else 1 / (1 - beta * a / a_t)) / a)
            * (a / a_t) powr alpha * exp (- (((a - a_t) / a_c) ^ 3)))"
proof -
  have a: "0 < a" using assms by simp
  have f0: "grasil_f0 exact a C a_t alpha = Some (C / a * (a / a_t) powr alpha)"
    using assms a by (simp add: grasil_f0_exact)
  have f2: "grasil_f2 exact a a_t a_c = Some (exp (- (((a - a_t) / a_c) ^ 3)))"
    using assms by (simp add: grasil_f2_exact)
  show ?thesis
  proof (cases "0 < beta")
    case True
    then have "grasil_f1 exact a a_t beta = Some (1 + beta * a / a_t)"
      using assms by (simp add: grasil_f1_exact_pos)
    from dnda_grasil_exact [OF f0 this f2] show ?thesis using True by simp
  next
    case False
    then have "grasil_f1 exact a a_t beta = Some (1 / (1 - beta * a / a_t))"
      using assms a by (simp add: grasil_f1_exact_nonpos)
    from dnda_grasil_exact [OF f0 this f2] show ?thesis using False by simp
  qed
qed

text \<open>
  Claim C8, as amended. In exact arithmetic, for \<open>C, a_t, a_c > 0\<close>, a power-law index
  \<open>alpha \<le> 0\<close> (as in all four tables), any \<open>beta\<close>, and every radius
  \<open>a \<ge> a_t + 3*a_c\<close>, the density at \<open>a\<close> times 1000 is below the density at \<open>a_t\<close>.
\<close>

theorem dnda_grasil_cutoff:
  assumes "0 < C" "0 < a_t" "0 < a_c" "alpha \<le> 0" "a_t + 3 * a_c \<le> a"
  shows "\<exists>v w. dnda_grasil exact a C a_t a_c alpha beta = Some v
    \<and> dnda_grasil exact a_t C a_t a_c alpha beta = Some w
    \<and> v * 1000 < w"
proof -
  define P where "P = (if 0 < beta then 1 + beta * a / a_t else 1 / (1 - beta * a / a_t)) / a"
  define G where "G = (if 0 < beta then 1 + beta else 1 / (1 - beta)) / a_t"
  define Q where "Q = (a / a_t) powr alpha"
  define R where "R = exp (- (((a - a_t) / a_c) ^ 3))"
  have le: "a_t \<le> a" using assms by simp
  have PG: "P \<le> G" "0 < G" "0 < P"
    unfolding P_def G_def by (rule grasil_f1_over_a [OF assms(2) le])+
  have "1 \<le> a / a_t" using assms le by simp
  then have Q: "Q \<le> 1" "0 < Q"
    unfolding Q_def using assms(4) by (rule powr_ge1_nonpos)+
  have "R \<le> exp (- 27)" unfolding R_def by (rule grasil_f2_tail [OF assms(3,5)])
  then have "1000 * R \<le> 1000 * exp (- 27)" by simp
  then have R: "1000 * R < 1" using exp_27 by linarith
  have R0: "0 < R" by (simp add: R_def)
  have "P * Q \<le> G * 1" using PG Q by (intro mult_mono) simp_all
  then have "(P * Q) * (1000 * R) \<le> G * (1000 * R)" using R0 by (intro mult_right_mono) simp_all
  also have "\<dots> < G * 1" using PG R by (intro mult_strict_left_mono) simp_all
  finally have "C * ((P * Q) * (1000 * R)) < C * (G * 1)"
    using assms(1) by (intro mult_strict_left_mono)
  then have "(C * P * Q * R) * 1000 < C * G" by (simp add: mult_ac)
  moreover have "dnda_grasil exact a C a_t a_c alpha beta = Some (C * P * Q * R)"
    unfolding P_def Q_def R_def by (rule dnda_grasil_beyond [OF assms(2,3) le])
  moreover have "dnda_grasil exact a_t C a_t a_c alpha beta = Some (C * G)"
    unfolding G_def by (rule dnda_grasil_at_transition [OF assms(2,3)])
  ultimately show ?thesis by blast
qed

text \<open>The theorem at the Milky Way silicate table and the radius \<open>2e-6\<close>.\<close>

theorem dnda_grasil_cutoff_witness:
  "\<exists>v w. dnda_grasil exact (2 / 10 ^ 6) (100 / 10 ^ 15) (164 / 10 ^ 9) (1 / 10 ^ 7)
             (- (221 / 100)) (300 / 1000) = Some v
    \<and> dnda_grasil exact (164 / 10 ^ 9) (100 / 10 ^ 15) (164 / 10 ^ 9) (1 / 10 ^ 7)
             (- (221 / 100)) (300 / 1000) = Some w
    \<and> v * 1000 < w"
proof -
  have h: "(0::real) < 100 / 10 ^ 15" "(0::real) < 164 / 10 ^ 9" "(0::real) < 1 / 10 ^ 7"
    "- (221 / 100) \<le> (0::real)" "(164 / 10 ^ 9 + 3 * (1 / 10 ^ 7) :: real) \<le> 2 / 10 ^ 6"
    by simp_all
  show ?thesis
    by (rule dnda_grasil_cutoff [OF h])
qed

lemma exp_216: "exp (216::real) \<le> 3 ^ 216"
proof -
  have "exp (216::real) = exp 1 ^ 216"
    using exp_of_nat_mult [of 216 "1::real"] by simp
  also have "\<dots> \<le> 3 ^ 216" by (rule power_mono [OF exp_le]) simp
  finally show ?thesis .
qed

text \<open>
  Without a bound on \<open>alpha\<close> the claim fails: with \<open>C = 1\<close>, \<open>a_t = 1e-9\<close>, \<open>a_c = 1e-7\<close>,
  \<open>alpha = 40\<close>, \<open>beta = 0\<close> and the radius \<open>a = a_t + 6*a_c = 6.01e-7\<close>, the power law
  outgrows the cutoff \<open>exp(-216)\<close>.
\<close>

theorem dnda_grasil_cutoff_counterexample:
  "(1 / 10 ^ 9 + 3 * (1 / 10 ^ 7) :: real) < 601 / 10 ^ 9
   \<and> dnda_grasil exact (601 / 10 ^ 9) 1 (1 / 10 ^ 9) (1 / 10 ^ 7) 40 0
       = Some (10 ^ 9 * 601 ^ 39 * exp (- 216))
   \<and> dnda_grasil exact (1 / 10 ^ 9) 1 (1 / 10 ^ 9) (1 / 10 ^ 7) 40 0 = Some (10 ^ 9)
   \<and> \<not> (10 ^ 9 * 601 ^ 39 * exp (- 216) * 1000 < (10 ^ 9 :: real))"
proof -
  have h: "(0::real) < 1 / 10 ^ 9" "(0::real) < 1 / 10 ^ 7" "(1 / 10 ^ 9 :: real) \<le> 601 / 10 ^ 9"
    by simp_all
  have v: "dnda_grasil exact (601 / 10 ^ 9) 1 (1 / 10 ^ 9) (1 / 10 ^ 7) 40 0
       = Some (10 ^ 9 * 601 ^ 39 * exp (- 216))"
    using dnda_grasil_beyond [OF h, of 1 40 0] by simp
  have w: "dnda_grasil exact (1 / 10 ^ 9) 1 (1 / 10 ^ 9) (1 / 10 ^ 7) 40 0 = Some (10 ^ 9)"
    using dnda_grasil_at_transition [OF h(1,2), of 1 40 0] by simp
  have "(1::real) \<le> 601 ^ 39 * 1000 / 3 ^ 216" by simp
  also have "\<dots> \<le> 601 ^ 39 * 1000 / exp 216"
    by (intro divide_left_mono exp_216) simp_all
  also have "\<dots> = 601 ^ 39 * exp (- 216) * 1000"
    by (simp add: exp_minus divide_inverse)
  finally have "(10 ^ 9 :: real) * 1 \<le> 10 ^ 9 * (601 ^ 39 * exp (- 216) * 1000)"
    by (intro mult_left_mono) simp_all
  then have "\<not> (10 ^ 9 * 601 ^ 39 * exp (- 216) * 1000 < (10 ^ 9 :: real))"
    by (simp add: mult_ac)
  with v w show ?thesis by simp
qed

end
